theory Spec2Isabelle
  imports Complex_Main "HOL-Library.Word" "HOL-Library.Sublist"
    "HOL-Library.Product_Lexorder" "HOL-Library.Char_ord" "HOL-Library.List_Lexorder"
begin

section \<open>Python values\<close>

text \<open>
  The program is dynamically typed: the vendor's JSON is handed around as Python
  objects, and several claims are about what happens when a field has an unexpected
  type. A value is therefore one of the Python objects the program can hold:
  \<open>None\<close>, a bool, an int, a float (its IEEE-754 double bits), a str, a list, a dict
  with str keys (an association list; the first binding of a key is its value) or a
  \<open>datetime.date\<close>.

  A str is a list of characters with code points below 256; the string functions below
  are the Python ones restricted to that range. Only the snapshot writer, which is
  handed arbitrary text and encodes it, is modelled on lists of arbitrary code points.

  A date is the triple (year, month, day); the lexicographic order on triples is the
  chronological order that Python's \<open>date\<close> comparison implements.
\<close>

type_synonym date = "nat \<times> nat \<times> nat"

datatype pyval =
    PNone
  | PBool bool
  | PInt int
  | PFloat "64 word"
  | PStr string
  | PList "pyval list"
  | PDict "(string \<times> pyval) list"
  | PDate date

text \<open>The exceptions the program can meet, by class. The two Unicode errors are
  subclasses of \<open>ValueError\<close> in Python; they are kept apart here.\<close>

datatype error =
    TypeError | AttributeError | KeyError | IndexError | ValueError | OSError
  | OverflowError | UnicodeDecodeError | UnicodeEncodeError

text \<open>Truth value testing, as \<open>bool(x)\<close>, \<open>not x\<close> and \<open>x or y\<close> use it. A float is
  false when it is \<open>0.0\<close> or \<open>-0.0\<close>: all bits but the sign bit are zero.\<close>

fun py_truthy :: "pyval \<Rightarrow> bool" where
  "py_truthy PNone = False"
| "py_truthy (PBool b) = b"
| "py_truthy (PInt i) = (i \<noteq> 0)"
| "py_truthy (PFloat w) = (push_bit 1 w \<noteq> 0)"
| "py_truthy (PStr s) = (s \<noteq> [])"
| "py_truthy (PList xs) = (xs \<noteq> [])"
| "py_truthy (PDict kvs) = (kvs \<noteq> [])"
| "py_truthy (PDate d) = True"

definition py_or :: "pyval \<Rightarrow> pyval \<Rightarrow> pyval" where
  "py_or a b = (if py_truthy a then a else b)"

text \<open>\<open>d.get(k, default)\<close> on a dict, and on an arbitrary object: only a dict has the
  method, anything else raises \<open>AttributeError\<close>.\<close>

definition dict_get :: "(string \<times> pyval) list \<Rightarrow> string \<Rightarrow> pyval \<Rightarrow> pyval" where
  "dict_get kvs k dflt = (case map_of kvs k of None \<Rightarrow> dflt | Some v \<Rightarrow> v)"

definition py_get :: "pyval \<Rightarrow> string \<Rightarrow> pyval \<Rightarrow> error + pyval" where
  "py_get obj k dflt = (case obj of PDict kvs \<Rightarrow> Inr (dict_get kvs k dflt) | _ \<Rightarrow> Inl AttributeError)"

text \<open>\<open>needle in obj\<close> for a str needle: key membership in a dict, element equality in
  a list, substring in a str, \<open>TypeError\<close> for an object that is no container.\<close>

definition py_contains :: "pyval \<Rightarrow> string \<Rightarrow> error + bool" where
  "py_contains obj needle =
     (case obj of
        PDict kvs \<Rightarrow> Inr (map_of kvs needle \<noteq> None)
      | PList xs \<Rightarrow> Inr (PStr needle \<in> set xs)
      | PStr s \<Rightarrow> Inr (sublist needle s)
      | _ \<Rightarrow> Inl TypeError)"

text \<open>\<open>obj[key]\<close> for a str key: a dict looks it up (\<open>KeyError\<close> when missing); a list
  or a str wants an integer index, and nothing else is subscriptable.\<close>

definition py_getitem :: "pyval \<Rightarrow> string \<Rightarrow> error + pyval" where
  "py_getitem obj k =
     (case obj of
        PDict kvs \<Rightarrow> (case map_of kvs k of None \<Rightarrow> Inl KeyError | Some v \<Rightarrow> Inr v)
      | _ \<Rightarrow> Inl TypeError)"

text \<open>What \<open>for d in obj\<close> iterates over: the elements of a list, the keys of a dict,
  the characters of a str; \<open>TypeError\<close> otherwise.\<close>

definition py_iter :: "pyval \<Rightarrow> error + pyval list" where
  "py_iter obj =
     (case obj of
        PList xs \<Rightarrow> Inr xs
      | PDict kvs \<Rightarrow> Inr (map (\<lambda>k. PStr k) (remdups (map fst kvs)))
      | PStr s \<Rightarrow> Inr (map (\<lambda>c. PStr [c]) s)
      | _ \<Rightarrow> Inl TypeError)"

section \<open>Strings\<close>

text \<open>\<open>str.lower()\<close> below code point 256: the ASCII capitals and the Latin-1 capitals
  (U+00C0 to U+00DE without the multiplication sign U+00D7) gain bit 5.\<close>

definition py_lower_char :: "char \<Rightarrow> char" where
  "py_lower_char c =
     (let n = (of_char c :: nat)
      in if (65 \<le> n \<and> n \<le> 90) \<or> (192 \<le> n \<and> n \<le> 222 \<and> n \<noteq> 215)
         then (case c of Char b0 b1 b2 b3 b4 b5 b6 b7 \<Rightarrow> Char b0 b1 b2 b3 b4 True b6 b7)
         else c)"

definition py_lower :: "string \<Rightarrow> string" where
  "py_lower s = map py_lower_char s"

text \<open>The method call \<open>x.lower()\<close> on an arbitrary object.\<close>

definition lower_method :: "pyval \<Rightarrow> error + string" where
  "lower_method v = (case v of PStr s \<Rightarrow> Inr (py_lower s) | _ \<Rightarrow> Inl AttributeError)"

text \<open>The regular expression classes \<open>\s\<close> and \<open>\d\<close> on a str pattern, below 256.\<close>

definition is_space :: "char \<Rightarrow> bool" where
  "is_space c =
     (let n = (of_char c :: nat)
      in (9 \<le> n \<and> n \<le> 13) \<or> (28 \<le> n \<and> n \<le> 32) \<or> n = 133 \<or> n = 160)"

definition is_digit :: "char \<Rightarrow> bool" where
  "is_digit c = (let n = (of_char c :: nat) in 48 \<le> n \<and> n \<le> 57)"

definition is_digit19 :: "char \<Rightarrow> bool" where
  "is_digit19 c = (let n = (of_char c :: nat) in 49 \<le> n \<and> n \<le> 57)"

definition digit_val :: "char \<Rightarrow> nat" where
  "digit_val c = of_char c - 48"

text \<open>\<open>int(s)\<close> on a str of decimal digits, after the leading white space \<open>int\<close> strips.\<close>

definition digits_value :: "string \<Rightarrow> nat" where
  "digits_value s = foldl (\<lambda>a c. 10 * a + digit_val c) 0 s"

definition int_of_text :: "string \<Rightarrow> nat" where
  "int_of_text s = digits_value (dropWhile is_space s)"

section \<open>Dates\<close>

definition date_min :: date where
  "date_min = (1, 1, 1)"

definition is_leap :: "nat \<Rightarrow> bool" where
  "is_leap y = (y mod 4 = 0 \<and> (y mod 100 \<noteq> 0 \<or> y mod 400 = 0))"

definition days_in_month :: "nat \<Rightarrow> nat \<Rightarrow> nat" where
  "days_in_month y m =
     (if m = 2 then (if is_leap y then 29 else 28)
      else if m = 4 \<or> m = 6 \<or> m = 9 \<or> m = 11 then 30 else 31)"

text \<open>The dates \<open>datetime.date(y, m, d)\<close> accepts; any other triple raises \<open>ValueError\<close>.\<close>

definition valid_date :: "date \<Rightarrow> bool" where
  "valid_date dt =
     (case dt of (y, m, d) \<Rightarrow>
        1 \<le> y \<and> y \<le> 9999 \<and> 1 \<le> m \<and> m \<le> 12 \<and> 1 \<le> d \<and> d \<le> days_in_month y m)"

definition make_date :: "nat \<Rightarrow> nat \<Rightarrow> nat \<Rightarrow> error + date" where
  "make_date y m d = (if valid_date (y, m, d) then Inr (y, m, d) else Inl ValueError)"

text \<open>\<open>str(date)\<close>, which is \<open>date.isoformat()\<close>: \<open>%04d-%02d-%02d\<close>.\<close>

definition digit_char :: "nat \<Rightarrow> char" where
  "digit_char n = char_of (48 + n mod 10)"

definition pad2 :: "nat \<Rightarrow> string" where
  "pad2 n = [digit_char (n div 10), digit_char n]"

definition pad4 :: "nat \<Rightarrow> string" where
  "pad4 n = [digit_char (n div 1000), digit_char (n div 100), digit_char (n div 10), digit_char n]"


section \<open>The date parser\<close>

text \<open>
  \<open>datetime.strptime(s, "%d %b %Y")\<close> of the standard library, in the C/English
  locale. The library turns the format into the regular expression
  \<^verbatim>\<open>(?P<d>3[0-1]|[1-2]\d|0[1-9]|[1-9]| [1-9])\s+(?P<b>jan|...|dec)\s+(?P<Y>\d\d\d\d)\<close>,
  matched at the start of the string ignoring case; it raises \<open>ValueError\<close> when the
  expression does not match, when text remains after the match or when the three
  numbers are no calendar date, and \<open>TypeError\<close> when the argument is no str.

  On a str of code points below 256, which is all a str of this model holds, the
  classes \<open>\s\<close> and \<open>\d\<close> are \<open>is_space\<close> and \<open>is_digit\<close>. Beyond that range the
  library's classes, and \<open>int\<close>, also take the other Unicode white space and decimal
  digits; such text has no counterpart here, and what is proved of the parser is
  proved of text below 256.

  \<open>day_alternatives\<close> lists, in the order of the alternation, every way the day group
  matches at the start: the matched text and the rest. The first alternative after
  which the rest of the expression matches is the match.
\<close>

definition month_abbrs :: "string list" where
  "month_abbrs = [''jan'', ''feb'', ''mar'', ''apr'', ''may'', ''jun'',
                  ''jul'', ''aug'', ''sep'', ''oct'', ''nov'', ''dec'']"

fun index_of :: "'a \<Rightarrow> 'a list \<Rightarrow> nat option" where
  "index_of x [] = None"
| "index_of x (y # ys) = (if x = y then Some 0 else map_option Suc (index_of x ys))"

definition day_alternatives :: "string \<Rightarrow> (string \<times> string) list" where
  "day_alternatives s =
     (case s of
        [] \<Rightarrow> []
      | [a] \<Rightarrow> (if is_digit19 a then [([a], [])] else [])
      | a # b # rest \<Rightarrow>
          (if a = CHR ''3'' \<and> (b = CHR ''0'' \<or> b = CHR ''1'') then [([a, b], rest)] else []) @
          (if (a = CHR ''1'' \<or> a = CHR ''2'') \<and> is_digit b then [([a, b], rest)] else []) @
          (if a = CHR ''0'' \<and> is_digit19 b then [([a, b], rest)] else []) @
          (if is_digit19 a then [([a], b # rest)] else []) @
          (if a = CHR '' '' \<and> is_digit19 b then [([a, b], rest)] else []))"

text \<open>\<open>\s+\<close>: one or more white space characters. The expression is greedy, and what
  follows it here (a month letter, a digit) is never white space, so giving characters
  back cannot turn a failure into a match.\<close>

definition skip_spaces :: "string \<Rightarrow> string option" where
  "skip_spaces s =
     (case s of [] \<Rightarrow> None
      | c # cs \<Rightarrow> if is_space c then Some (dropWhile is_space cs) else None)"

text \<open>The month group: three characters that, ignoring case, spell an abbreviation.\<close>

definition match_month :: "string \<Rightarrow> (string \<times> string) option" where
  "match_month s =
     (case s of
        a # b # c # rest \<Rightarrow>
          if py_lower [a, b, c] \<in> set month_abbrs then Some ([a, b, c], rest) else None
      | _ \<Rightarrow> None)"

definition match_year :: "string \<Rightarrow> (string \<times> string) option" where
  "match_year s =
     (case s of
        a # b # c # d # rest \<Rightarrow>
          if is_digit a \<and> is_digit b \<and> is_digit c \<and> is_digit d
          then Some ([a, b, c, d], rest) else None
      | _ \<Rightarrow> None)"

text \<open>The expression after the day group: the month text, the year text and what is
  left of the string.\<close>

definition match_tail :: "string \<Rightarrow> (string \<times> string \<times> string) option" where
  "match_tail s =
     (case skip_spaces s of None \<Rightarrow> None
      | Some s1 \<Rightarrow>
          (case match_month s1 of None \<Rightarrow> None
           | Some (b, s2) \<Rightarrow>
               (case skip_spaces s2 of None \<Rightarrow> None
                | Some s3 \<Rightarrow>
                    (case match_year s3 of None \<Rightarrow> None
                     | Some (y, s4) \<Rightarrow> Some (b, y, s4)))))"

fun first_match :: "(string \<times> string) list \<Rightarrow> (string \<times> string \<times> string \<times> string) option" where
  "first_match [] = None"
| "first_match ((d, rest) # alts) =
     (case match_tail rest of
        Some (b, y, left) \<Rightarrow> Some (d, b, y, left)
      | None \<Rightarrow> first_match alts)"

definition regex_match :: "string \<Rightarrow> (string \<times> string \<times> string \<times> string) option" where
  "regex_match s = first_match (day_alternatives s)"

definition strptime :: "pyval \<Rightarrow> error + date" where
  "strptime v =
     (case v of
        PStr s \<Rightarrow>
          (case regex_match s of
             None \<Rightarrow> Inl ValueError
           | Some (d, b, y, left) \<Rightarrow>
               if left \<noteq> [] then Inl ValueError
               else (case index_of (py_lower b) month_abbrs of
                       None \<Rightarrow> Inl ValueError
                     | Some i \<Rightarrow> make_date (digits_value y) (Suc i) (int_of_text d)))
      | _ \<Rightarrow> Inl TypeError)"

text \<open>\<open>parse_date\<close> (fetch\_cpld.py, lines 71-75): every exception becomes \<open>None\<close>.\<close>

definition parse_date :: "pyval \<Rightarrow> date option" where
  "parse_date s = (case strptime s of Inl e \<Rightarrow> None | Inr d \<Rightarrow> Some d)"

section \<open>The row normalizer\<close>

text \<open>A normalized row: the \<open>OrderedDict\<close> that \<open>parse_rows\<close> builds, with its nine
  keys. The two parsed dates are a date or \<open>None\<close>; the other fields are whatever
  object the vendor sent (\<open>PNone\<close> when the key was missing).\<close>

record driver_row =
  ReleaseDate :: "date option"
  ReleaseDateRaw :: pyval
  LastUpdate :: "date option"
  UpdateStatus :: pyval
  Version :: pyval
  Name :: pyval
  Category :: pyval
  DriverId :: pyval
  DownloadUrl :: pyval

text \<open>\<open>(d.get("FileFrmtInfo") or {}).get(key)\<close>.\<close>

definition file_frmt_info_get :: "(string \<times> pyval) list \<Rightarrow> string \<Rightarrow> error + pyval" where
  "file_frmt_info_get d k = py_get (py_or (dict_get d ''FileFrmtInfo'' PNone) (PDict [])) k PNone"

text \<open>\<open>d.get("DriverId") or d.get("DriverIdEN") or (d.get("FileFrmtInfo") or {}).get("FileId")\<close>:
  the third operand is evaluated only when the first two are false.\<close>

definition driver_id_of :: "(string \<times> pyval) list \<Rightarrow> error + pyval" where
  "driver_id_of d =
     (if py_truthy (dict_get d ''DriverId'' PNone) then Inr (dict_get d ''DriverId'' PNone)
      else if py_truthy (dict_get d ''DriverIdEN'' PNone) then Inr (dict_get d ''DriverIdEN'' PNone)
      else file_frmt_info_get d ''FileId'')"

text \<open>The body of the loop of \<open>parse_rows\<close> (fetch\_cpld.py, lines 69-86) for one
  element \<open>d\<close> of the driver list. The first \<open>d.get\<close> already raises when \<open>d\<close> is no
  dict.\<close>

definition normalize_row :: "pyval \<Rightarrow> error + driver_row" where
  "normalize_row d =
     (case d of
        PDict kvs \<Rightarrow>
          (let rd_raw = dict_get kvs ''ReleaseDate'' PNone;
               lu_raw = dict_get kvs ''LUPDDate'' PNone
           in case driver_id_of kvs of
                Inl e \<Rightarrow> Inl e
              | Inr driver_id \<Rightarrow>
                  (case file_frmt_info_get kvs ''Path'' of
                     Inl e \<Rightarrow> Inl e
                   | Inr url \<Rightarrow>
                       Inr \<lparr> ReleaseDate = parse_date rd_raw,
                             ReleaseDateRaw = rd_raw,
                             LastUpdate = parse_date lu_raw,
                             UpdateStatus = dict_get kvs ''Imp'' PNone,
                             Version = dict_get kvs ''DellVer'' PNone,
                             Name = dict_get kvs ''DriverName'' (PStr []),
                             Category = dict_get kvs ''Category'' (PStr []),
                             DriverId = driver_id,
                             DownloadUrl = url \<rparr>))
      | _ \<Rightarrow> Inl AttributeError)"

fun collect_rows :: "pyval list \<Rightarrow> error + driver_row list" where
  "collect_rows [] = Inr []"
| "collect_rows (d # ds) =
     (case normalize_row d of
        Inl e \<Rightarrow> Inl e
      | Inr r \<Rightarrow> (case collect_rows ds of Inl e \<Rightarrow> Inl e | Inr rs \<Rightarrow> Inr (r # rs)))"

text \<open>\<open>parse_rows\<close> (fetch\_cpld.py, lines 64-87).\<close>

definition parse_rows :: "pyval \<Rightarrow> error + driver_row list" where
  "parse_rows driver_json =
     (if \<not> py_truthy driver_json then Inr []
      else case py_contains driver_json ''DriverListData'' of
             Inl e \<Rightarrow> Inl e
           | Inr False \<Rightarrow> Inr []
           | Inr True \<Rightarrow>
               (case py_getitem driver_json ''DriverListData'' of
                  Inl e \<Rightarrow> Inl e
                | Inr lst \<Rightarrow>
                    (case py_iter lst of Inl e \<Rightarrow> Inl e | Inr ds \<Rightarrow> collect_rows ds)))"

section \<open>The CPLD filter\<close>

text \<open>\<open>is_cpld\<close> (fetch\_cpld.py, lines 89-92). \<open>row.get("Name") or ""\<close> replaces a false
  value by the empty str; \<open>.lower()\<close> raises on what is left when it is no str.\<close>

definition is_cpld :: "driver_row \<Rightarrow> error + bool" where
  "is_cpld row =
     (case lower_method (py_or (Name row) (PStr [])) of
        Inl e \<Rightarrow> Inl e
      | Inr name \<Rightarrow>
          (case lower_method (py_or (Category row) (PStr [])) of
             Inl e \<Rightarrow> Inl e
           | Inr cat \<Rightarrow>
               Inr (sublist ''cpld'' name \<or> sublist ''cpld'' cat
                    \<or> sublist ''complex programmable logic'' name)))"

text \<open>The comprehension \<open>[r for r in rows if is_cpld(r)]\<close>.\<close>

fun filter_cpld :: "driver_row list \<Rightarrow> error + driver_row list" where
  "filter_cpld [] = Inr []"
| "filter_cpld (r # rs) =
     (case is_cpld r of
        Inl e \<Rightarrow> Inl e
      | Inr keep \<Rightarrow>
          (case filter_cpld rs of
             Inl e \<Rightarrow> Inl e
           | Inr kept \<Rightarrow> Inr (if keep then r # kept else kept)))"

section \<open>Sorting\<close>

text \<open>\<open>xs.sort(key=k, reverse=True)\<close>: CPython reverses the list, sorts it with its
  stable ascending sort and reverses the result, so that elements with equal keys keep
  their order.\<close>

definition py_sort_reverse :: "('a \<Rightarrow> 'k::linorder) \<Rightarrow> 'a list \<Rightarrow> 'a list" where
  "py_sort_reverse k xs = rev (sort_key k (rev xs))"

text \<open>The sort key of the selector: \<open>r.get("ReleaseDate") or datetime.min.date()\<close>.
  A date object is always true.\<close>

definition release_key :: "driver_row \<Rightarrow> date" where
  "release_key r = (case ReleaseDate r of Some d \<Rightarrow> d | None \<Rightarrow> date_min)"

section \<open>The API client\<close>

text \<open>
  What one \<open>requests.get\<close> can do: raise (the exception's text), or answer with a status
  code, a \<open>Content-Type\<close> header (absent or a str) and a body on which \<open>resp.json()\<close>
  either raises (\<open>Inl\<close>, the exception's text) or returns an object (\<open>Inr\<close>).

  The network is an oracle: the outcome of the n-th request the process sends, given the
  country, the product code and the OS code of the request. The world counts the
  requests sent and records, in order, what the process printed, how long it slept
  and which warnings it emitted.
\<close>

datatype http_outcome =
    Raises string
  | Response int "string option" "string + pyval"

type_synonym network = "nat \<Rightarrow> string \<times> string \<times> string \<Rightarrow> http_outcome"

text \<open>A float is a finite number, an infinity or not-a-number. Finite floats are
  taken as the reals they denote: the rounding of a product to a double changes
  neither its sign nor, except within one unit in the last place of a limit, the side
  of the limit it is on.\<close>

datatype pyfloat = Finite real | PosInf | NegInf | NaN

text \<open>An exception the retry loop caught: one of the request (raised by
  \<open>requests.get\<close> or by \<open>resp.json()\<close>, known by its text) or one of a \<open>sleep\<close> inside
  the \<open>try\<close> block.\<close>

datatype caught = Of_request string | Of_sleep error

datatype event =
    Debug_get string string int
  | Warn_no_content
  | Warn_unexpected int string
  | Error_exception caught
  | Sleep real
  | Warning string string caught

record world =
  requests_sent :: nat
  trace :: "event list"

definition emit :: "event \<Rightarrow> world \<Rightarrow> world" where
  "emit ev w = w\<lparr>trace := trace w @ [ev]\<rparr>"

text \<open>\<open>x * n\<close> for a float \<open>x\<close> and an int \<open>n\<close>. The int is converted to a float first,
  which raises \<open>OverflowError\<close> when it rounds to \<open>2 ^ 1024\<close> or beyond; a product of that
  size is an infinity.\<close>

definition FLOAT_OVERFLOW :: real where
  "FLOAT_OVERFLOW = 2 ^ 1024 - 2 ^ 970"

definition float_times_int :: "pyfloat \<Rightarrow> int \<Rightarrow> error + pyfloat" where
  "float_times_int x n =
     (if FLOAT_OVERFLOW \<le> \<bar>of_int n\<bar> then Inl OverflowError
      else Inr (case x of
                  Finite r \<Rightarrow>
                    if FLOAT_OVERFLOW \<le> r * of_int n then PosInf
                    else if r * of_int n \<le> - FLOAT_OVERFLOW then NegInf
                    else Finite (r * of_int n)
                | PosInf \<Rightarrow> if 0 < n then PosInf else if n < 0 then NegInf else NaN
                | NegInf \<Rightarrow> if 0 < n then NegInf else if n < 0 then PosInf else NaN
                | NaN \<Rightarrow> NaN))"

text \<open>\<open>time.sleep(secs)\<close> raises \<open>ValueError\<close> on a negative length and on not-a-number,
  and \<open>OverflowError\<close> on a length that does not fit the 64-bit count of nanoseconds
  it is converted to: from \<open>2 ^ 63\<close> nanoseconds, about 9.2 thousand million seconds.\<close>

definition py_sleep :: "pyfloat \<Rightarrow> world \<Rightarrow> error + world" where
  "py_sleep secs w =
     (case secs of
        NaN \<Rightarrow> Inl ValueError
      | NegInf \<Rightarrow> Inl ValueError
      | PosInf \<Rightarrow> Inl OverflowError
      | Finite r \<Rightarrow>
          if r < 0 then Inl ValueError
          else if 2 ^ 63 \<le> r * 10 ^ 9 then Inl OverflowError
          else Inr (emit (Sleep r) w))"

text \<open>The statement \<open>time.sleep(backoff * attempt)\<close>.\<close>

definition sleep_for :: "pyfloat \<Rightarrow> int \<Rightarrow> world \<Rightarrow> error + world" where
  "sleep_for backoff attempt w =
     (case float_times_int backoff attempt of
        Inl err \<Rightarrow> Inl err
      | Inr secs \<Rightarrow> py_sleep secs w)"

definition COUNTRY :: string where
  "COUNTRY = ''en-us''"

definition DEFAULT_OSCODES :: "string list" where
  "DEFAULT_OSCODES = [''NAA'', ''W2022'', ''W2019'', ''WS16'', ''WS12R2'']"

text \<open>How one pass through the body of the retry loop ends: the function returns the
  parsed JSON, the loop goes on (with the new value of \<open>last_exc\<close>), or an exception
  leaves the function.\<close>

datatype attempt_result = Return pyval | Continue "caught option" | Raise error

text \<open>The \<open>except Exception\<close> handler (fetch\_cpld.py, lines 56-59). Its own \<open>sleep\<close> is
  outside the \<open>try\<close>, so an exception there propagates.\<close>

definition on_exception :: "pyfloat \<Rightarrow> int \<Rightarrow> caught \<Rightarrow> world \<Rightarrow> attempt_result \<times> world" where
  "on_exception backoff attempt e w =
     (let w1 = emit (Error_exception e) w
      in case sleep_for backoff attempt w1 of
           Inl err \<Rightarrow> (Raise err, w1)
         | Inr w2 \<Rightarrow> (Continue (Some e), w2))"

text \<open>A \<open>sleep\<close> inside the \<open>try\<close> block: when it raises, the handler takes over.\<close>

definition sleep_in_try :: "pyfloat \<Rightarrow> int \<Rightarrow> caught option \<Rightarrow> world \<Rightarrow> attempt_result \<times> world" where
  "sleep_in_try backoff attempt last_exc w =
     (case sleep_for backoff attempt w of
        Inl err \<Rightarrow> on_exception backoff attempt (Of_sleep err) w
      | Inr w1 \<Rightarrow> (Continue last_exc, w1))"

text \<open>The body of the retry loop (fetch\_cpld.py, lines 44-59).\<close>

definition attempt_once ::
  "network \<Rightarrow> string \<Rightarrow> string \<Rightarrow> string \<Rightarrow> pyfloat \<Rightarrow> int \<Rightarrow> caught option \<Rightarrow> world
     \<Rightarrow> attempt_result \<times> world" where
  "attempt_once net productcode oscode country backoff attempt last_exc w =
     (let w1 = w\<lparr>requests_sent := Suc (requests_sent w)\<rparr>
      in case net (requests_sent w) (country, productcode, oscode) of
           Raises e \<Rightarrow> on_exception backoff attempt (Of_request e) w1
         | Response status content_type body \<Rightarrow>
             (let w2 = emit (Debug_get productcode oscode status) w1;
                  ctype = (case content_type of None \<Rightarrow> [] | Some c \<Rightarrow> c)
              in if status = 200 \<and> prefix ''application/json'' ctype then
                   (case body of
                      Inr j \<Rightarrow> (Return j, w2)
                    | Inl e \<Rightarrow> on_exception backoff attempt (Of_request e) w2)
                 else if status = 204 then
                   sleep_in_try backoff attempt last_exc (emit Warn_no_content w2)
                 else
                   sleep_in_try backoff attempt last_exc (emit (Warn_unexpected status ctype) w2)))"

text \<open>The loop \<open>for attempt in range(1, retries + 1)\<close>, over the attempt numbers left.
  \<open>Inr None\<close>: the loop ran to its end.\<close>

fun retry_loop ::
  "network \<Rightarrow> string \<Rightarrow> string \<Rightarrow> string \<Rightarrow> pyfloat \<Rightarrow> int list \<Rightarrow> caught option \<Rightarrow> world
     \<Rightarrow> (error + pyval option \<times> caught option) \<times> world" where
  "retry_loop net productcode oscode country backoff [] last_exc w = (Inr (None, last_exc), w)"
| "retry_loop net productcode oscode country backoff (attempt # rest) last_exc w =
     (case attempt_once net productcode oscode country backoff attempt last_exc w of
        (Return j, w1) \<Rightarrow> (Inr (Some j, last_exc), w1)
      | (Raise err, w1) \<Rightarrow> (Inl err, w1)
      | (Continue last_exc1, w1) \<Rightarrow>
          retry_loop net productcode oscode country backoff rest last_exc1 w1)"

text \<open>\<open>call_dell_api\<close> (fetch\_cpld.py, lines 28-62). After the loop, \<open>if last_exc:\<close>
  guards the warning; an exception object is true. The function returns \<open>None\<close>
  (\<open>PNone\<close>) when the loop ran to its end.\<close>

definition call_dell_api ::
  "network \<Rightarrow> string \<Rightarrow> string \<Rightarrow> string \<Rightarrow> int \<Rightarrow> pyfloat \<Rightarrow> world \<Rightarrow> (error + pyval) \<times> world" where
  "call_dell_api net productcode oscode country retries backoff w =
     (case retry_loop net productcode oscode country backoff [1..retries] None w of
        (Inl err, w1) \<Rightarrow> (Inl err, w1)
      | (Inr (Some j, last_exc), w1) \<Rightarrow> (Inr j, w1)
      | (Inr (None, last_exc), w1) \<Rightarrow>
          (case last_exc of
             Some e \<Rightarrow> (Inr PNone, emit (Warning productcode oscode e) w1)
           | None \<Rightarrow> (Inr PNone, w1)))"

section \<open>The latest selector\<close>

text \<open>The rows of one response that pass the filter: \<open>parse_rows\<close>, then the
  comprehension.\<close>

definition cpld_rows_of :: "pyval \<Rightarrow> error + driver_row list" where
  "cpld_rows_of data =
     (case parse_rows data of Inl e \<Rightarrow> Inl e | Inr rows \<Rightarrow> filter_cpld rows)"

text \<open>The test \<open>best is None or key(candidate) > key(best)\<close> and the assignment it
  guards.\<close>

definition better :: "driver_row option \<Rightarrow> driver_row \<Rightarrow> driver_row option" where
  "better best candidate =
     (case best of
        None \<Rightarrow> Some candidate
      | Some b \<Rightarrow> if release_key candidate > release_key b then Some candidate else Some b)"

text \<open>The loop over the OS codes (fetch\_cpld.py, lines 97-106), called with the
  defaults \<open>retries=3\<close> and \<open>backoff=2.0\<close> of \<open>call_dell_api\<close>. \<open>cpld_rows[0]\<close> is taken
  from a list the \<open>continue\<close> above has shown non-empty.\<close>

fun select_loop ::
  "network \<Rightarrow> string \<Rightarrow> string \<Rightarrow> string list \<Rightarrow> driver_row option \<Rightarrow> world
     \<Rightarrow> (error + driver_row option) \<times> world" where
  "select_loop net productcode country [] best w = (Inr best, w)"
| "select_loop net productcode country (oscode # rest) best w =
     (case call_dell_api net productcode oscode country 3 (Finite 2) w of
        (Inl e, w1) \<Rightarrow> (Inl e, w1)
      | (Inr data, w1) \<Rightarrow>
          (case cpld_rows_of data of
             Inl e \<Rightarrow> (Inl e, w1)
           | Inr cpld_rows \<Rightarrow>
               if cpld_rows = [] then select_loop net productcode country rest best w1
               else (case py_sort_reverse release_key cpld_rows of
                       [] \<Rightarrow> (Inl IndexError, w1)
                     | candidate # others \<Rightarrow>
                         select_loop net productcode country rest (better best candidate) w1)))"

text \<open>\<open>find_latest_cpld\<close> (fetch\_cpld.py, lines 94-107). \<open>oscodes or DEFAULT_OSCODES\<close>
  replaces \<open>None\<close> and the empty list by the default list.\<close>

definition effective_oscodes :: "string list option \<Rightarrow> string list" where
  "effective_oscodes oscodes =
     (case oscodes of None \<Rightarrow> DEFAULT_OSCODES | Some [] \<Rightarrow> DEFAULT_OSCODES | Some l \<Rightarrow> l)"

definition find_latest_cpld ::
  "network \<Rightarrow> string \<Rightarrow> string list option \<Rightarrow> string \<Rightarrow> world
     \<Rightarrow> (error + driver_row option) \<times> world" where
  "find_latest_cpld net productcode oscodes country w =
     select_loop net productcode country (effective_oscodes oscodes) None w"

section \<open>The snapshot record\<close>





section \<open>The snapshot writer\<close>

text \<open>
  The text the writer handles is arbitrary: a str is taken here as the list of its code
  points, each below \<open>0x110000\<close>. A str can be encoded as UTF-8 when no code point of
  it is a surrogate (\<open>0xD800\<close> to \<open>0xDFFF\<close>); \<open>s.encode()\<close> raises \<open>UnicodeEncodeError\<close>
  otherwise.

  The file system \<open>pathlib\<close> acts on: a path is its list of components, a node is a
  directory or a regular file. The bytes of a file either are the UTF-8 encoding of a
  text, and the file is known by that text, or they are no valid UTF-8 (\<open>File None\<close>).
  The empty path is the directory that relative paths start from; it always exists.
  Permissions, links and full disks are outside the model.
\<close>

type_synonym codepoints = "nat list"

definition is_scalar :: "nat \<Rightarrow> bool" where
  "is_scalar c = (c < 0xD800 \<or> (0xDFFF < c \<and> c < 0x110000))"

definition encodable :: "codepoints \<Rightarrow> bool" where
  "encodable s = list_all is_scalar s"

type_synonym path = "string list"

datatype node = Dir | File "codepoints option"

type_synonym filesystem = "path \<Rightarrow> node option"

datatype errno = ENOENT | EEXIST | ENOTDIR

definition node_at :: "filesystem \<Rightarrow> path \<Rightarrow> node option" where
  "node_at fs p = (if p = [] then Some Dir else fs p)"

text \<open>The system call \<open>mkdir\<close>: the path must be new and its parent a directory.\<close>

definition os_mkdir :: "filesystem \<Rightarrow> path \<Rightarrow> errno + filesystem" where
  "os_mkdir fs p =
     (if node_at fs p \<noteq> None then Inl EEXIST
      else case node_at fs (butlast p) of
             None \<Rightarrow> Inl ENOENT
           | Some (File x) \<Rightarrow> Inl ENOTDIR
           | Some Dir \<Rightarrow> Inr (fs(p \<mapsto> Dir)))"

text \<open>\<open>Path.mkdir(parents=False, exist_ok=True)\<close>: an existing directory is accepted,
  every other failure of the system call is raised.\<close>

definition mkdir_exist_ok :: "filesystem \<Rightarrow> path \<Rightarrow> error + filesystem" where
  "mkdir_exist_ok fs p =
     (case os_mkdir fs p of
        Inr fs1 \<Rightarrow> Inr fs1
      | Inl ENOENT \<Rightarrow> Inl OSError
      | Inl e \<Rightarrow> if node_at fs p = Some Dir then Inr fs else Inl OSError)"

text \<open>\<open>Path.mkdir(parents=True, exist_ok=True)\<close>, as \<open>pathlib\<close> writes it: on
  \<open>FileNotFoundError\<close> make the parent this way, then the directory itself.\<close>

function mkdir_parents :: "filesystem \<Rightarrow> path \<Rightarrow> error + filesystem" where
  "mkdir_parents fs p =
     (case os_mkdir fs p of
        Inr fs1 \<Rightarrow> Inr fs1
      | Inl ENOENT \<Rightarrow>
          (if p = [] then Inl OSError
           else case mkdir_parents fs (butlast p) of
                  Inl e \<Rightarrow> Inl e
                | Inr fs1 \<Rightarrow> mkdir_exist_ok fs1 p)
      | Inl e \<Rightarrow> if node_at fs p = Some Dir then Inr fs else Inl OSError)"
  by pat_completeness auto
termination
  by (relation "measure (\<lambda>(fs, p). length p)") auto

text \<open>\<open>open(mode="r")\<close> reads with universal newlines: \<open>\r\n\<close> and a lone \<open>\r\<close> (code
  point 13) come back as \<open>\n\<close> (code point 10). Writing on a POSIX system stores the
  characters as they are.\<close>

fun universal_newlines :: "codepoints \<Rightarrow> codepoints" where
  "universal_newlines [] = []"
| "universal_newlines [a] = (if a = 13 then [10] else [a])"
| "universal_newlines (a # b # cs) =
     (if a = 13 \<and> b = 10 then 10 # universal_newlines cs
      else if a = 13 then 10 # universal_newlines (b # cs)
      else a # universal_newlines (b # cs))"

text \<open>\<open>Path.read_text(encoding="utf-8")\<close>: the bytes are decoded, which raises
  \<open>UnicodeDecodeError\<close> when they are no valid UTF-8.\<close>

definition read_text :: "filesystem \<Rightarrow> path \<Rightarrow> error + codepoints" where
  "read_text fs p =
     (case node_at fs p of
        Some (File (Some stored)) \<Rightarrow> Inr (universal_newlines stored)
      | Some (File None) \<Rightarrow> Inl UnicodeDecodeError
      | _ \<Rightarrow> Inl OSError)"

text \<open>\<open>Path.write_text(content, encoding="utf-8")\<close>: the file is opened for writing,
  which creates or empties it, and then the text is encoded and written; when the
  encoding raises, the file is left empty.\<close>

definition write_text :: "filesystem \<Rightarrow> path \<Rightarrow> codepoints \<Rightarrow> (error + unit) \<times> filesystem" where
  "write_text fs p content =
     (if node_at fs p = Some Dir then (Inl OSError, fs)
      else case node_at fs (butlast p) of
             Some Dir \<Rightarrow>
               if encodable content then (Inr (), fs(p \<mapsto> File (Some content)))
               else (Inl UnicodeEncodeError, fs(p \<mapsto> File (Some [])))
           | _ \<Rightarrow> (Inl OSError, fs))"

text \<open>\<open>write_if_changed\<close> (fetch\_cpld.py, lines 113-119). \<open>sha256\<close> stands for
  \<open>hashlib.sha256(b).hexdigest()\<close> of the encoding \<open>b\<close> of a text that can be encoded;
  it is a parameter, so that nothing is assumed of the hash but that it is a function.
  \<open>old.encode()\<close> and \<open>content.encode()\<close> are evaluated, in this order, before the two
  digests are compared. The result pairs what the call returned or raised with the
  file system it left.\<close>

definition write_if_changed ::
  "(codepoints \<Rightarrow> 'h) \<Rightarrow> path \<Rightarrow> codepoints \<Rightarrow> filesystem \<Rightarrow> (error + bool) \<times> filesystem" where
  "write_if_changed sha256 p content fs =
     (case mkdir_parents fs (butlast p) of
        Inl e \<Rightarrow> (Inl e, fs)
      | Inr fs1 \<Rightarrow>
          (case (if node_at fs1 p \<noteq> None then read_text fs1 p else Inr []) of
             Inl e \<Rightarrow> (Inl e, fs1)
           | Inr old \<Rightarrow>
               if \<not> encodable old \<or> \<not> encodable content then (Inl UnicodeEncodeError, fs1)
               else if sha256 old \<noteq> sha256 content then
                 (case write_text fs1 p content of
                    (Inl e, fs2) \<Rightarrow> (Inl e, fs2)
                  | (Inr u, fs2) \<Rightarrow> (Inr True, fs2))
               else (Inr False, fs1)))"

section \<open>The catalog fallback\<close>
















section \<open>Notions the properties are stated with\<close>

text \<open>
  The definitions of this section are not translations of code: they say, in the
  words of the specification, what the code is compared with.

  \<open>first_max_at k xs i\<close>: position \<open>i\<close> holds the first element of \<open>xs\<close> among those
  with the greatest key.
\<close>

definition first_max_at :: "('a \<Rightarrow> 'k::linorder) \<Rightarrow> 'a list \<Rightarrow> nat \<Rightarrow> bool" where
  "first_max_at k xs i =
     (i < length xs \<and> (\<forall>j<length xs. k (xs ! j) \<le> k (xs ! i)) \<and> (\<forall>j<i. k (xs ! j) < k (xs ! i)))"

subsection \<open>Example data\<close>

definition json_response :: "pyval \<Rightarrow> http_outcome" where
  "json_response j = Response 200 (Some ''application/json; charset=utf-8'') (Inr j)"

definition driver_list :: "pyval list \<Rightarrow> pyval" where
  "driver_list ds = PDict [(''DriverListData'', PList ds)]"

definition cpld_entry :: "string \<Rightarrow> string \<Rightarrow> pyval" where
  "cpld_entry version released =
     PDict [(''DriverName'', PStr ''System CPLD''), (''DellVer'', PStr version),
            (''ReleaseDate'', PStr released)]"

definition cpld_row :: "string \<Rightarrow> string \<Rightarrow> date option \<Rightarrow> driver_row" where
  "cpld_row version released parsed =
     \<lparr> ReleaseDate = parsed, ReleaseDateRaw = PStr released, LastUpdate = None,
       UpdateStatus = PNone, Version = PStr version, Name = PStr ''System CPLD'',
       Category = PStr [], DriverId = PNone, DownloadUrl = PNone \<rparr>"

definition bios_entry :: "string \<Rightarrow> string \<Rightarrow> pyval" where
  "bios_entry version released =
     PDict [(''DriverName'', PStr ''Dell Server BIOS''), (''Category'', PStr ''BIOS''),
            (''DellVer'', PStr version), (''ReleaseDate'', PStr released)]"

definition bios_row :: "string \<Rightarrow> string \<Rightarrow> date option \<Rightarrow> driver_row" where
  "bios_row version released parsed =
     \<lparr> ReleaseDate = parsed, ReleaseDateRaw = PStr released, LastUpdate = None,
       UpdateStatus = PNone, Version = PStr version, Name = PStr ''Dell Server BIOS'',
       Category = PStr ''BIOS'', DriverId = PNone, DownloadUrl = PNone \<rparr>"

text \<open>A vendor that answers OS code A with a CPLD row of 1 January 2023 and a BIOS row
  of 1 February 2025, OS code B with a CPLD row of 1 June 2024, OS code C with another
  CPLD row of 1 June 2024, and every other request with 204.\<close>

definition example_net :: network where
  "example_net n req =
     (case req of (country, productcode, oscode) \<Rightarrow>
        if oscode = ''A'' then
          json_response (driver_list [cpld_entry ''1.0'' ''01 Jan 2023'',
                                      bios_entry ''2.5'' ''01 Feb 2025''])
        else if oscode = ''B'' then json_response (driver_list [cpld_entry ''1.2'' ''01 Jun 2024''])
        else if oscode = ''C'' then json_response (driver_list [cpld_entry ''1.3'' ''01 Jun 2024''])
        else Response 204 None (Inl ''no content''))"

definition world0 :: world where
  "world0 = \<lparr> requests_sent = 0, trace = [] \<rparr>"

subsection \<open>Text fields and containment ignoring case\<close>

text \<open>\<open>contains_ci needle s\<close>: some stretch of \<open>s\<close> is, letter case apart, the lower-case
  text \<open>needle\<close>.\<close>

definition contains_ci :: "string \<Rightarrow> string \<Rightarrow> bool" where
  "contains_ci needle s = (\<exists>pre mid suf. s = pre @ mid @ suf \<and> py_lower mid = needle)"

text \<open>The specification types the name and the category of a row as text. A field
  holds text when it is a str; a false value (\<open>None\<close>, an empty container, zero) stands
  for the empty text.\<close>

definition text_or_false :: "pyval \<Rightarrow> bool" where
  "text_or_false v = (case v of PStr s \<Rightarrow> True | _ \<Rightarrow> \<not> py_truthy v)"

definition text_of :: "pyval \<Rightarrow> string" where
  "text_of v = (case v of PStr s \<Rightarrow> s | _ \<Rightarrow> [])"

subsection \<open>What the selector is to return\<close>

text \<open>
  \<open>oscodes_queried\<close>: the OS codes of a run, the default list of five when the caller
  gives none. \<open>fetched\<close>: what the API client, called with its default retry count and
  backoff, hands back for each of them in turn. \<open>text_row\<close>: the name and the category
  of the row hold text. \<open>names_cpld\<close>: the row belongs to the CPLD category, in the
  words of section 4.3 of the specification. \<open>rank_date\<close>: the date a row is ranked
  with, \<open>date_min\<close> when it has no parsed release date.

  \<open>is_first_latest rows best\<close>: \<open>best\<close> is the most recent of \<open>rows\<close>, the first of them
  when several share the most recent date; it is absent exactly when there are no
  rows.
\<close>

definition oscodes_queried :: "string list option \<Rightarrow> string list" where
  "oscodes_queried oscodes =
     (if oscodes = None \<or> oscodes = Some []
      then [''NAA'', ''W2022'', ''W2019'', ''WS16'', ''WS12R2''] else the oscodes)"

fun fetched :: "network \<Rightarrow> string \<Rightarrow> string \<Rightarrow> string list \<Rightarrow> world \<Rightarrow> (error + pyval) list" where
  "fetched net productcode country [] w = []"
| "fetched net productcode country (oscode # rest) w =
     (case call_dell_api net productcode oscode country 3 (Finite 2) w of
        (res, w1) \<Rightarrow> res # fetched net productcode country rest w1)"

definition text_row :: "driver_row \<Rightarrow> bool" where
  "text_row r = (text_or_false (Name r) \<and> text_or_false (Category r))"

definition names_cpld :: "driver_row \<Rightarrow> bool" where
  "names_cpld r =
     (contains_ci ''cpld'' (text_of (Name r)) \<or> contains_ci ''cpld'' (text_of (Category r))
      \<or> contains_ci ''complex programmable logic'' (text_of (Name r)))"

definition rank_date :: "driver_row \<Rightarrow> date" where
  "rank_date r = (if ReleaseDate r = None then date_min else the (ReleaseDate r))"

definition is_first_latest :: "driver_row list \<Rightarrow> driver_row option \<Rightarrow> bool" where
  "is_first_latest rows best =
     ((rows = [] \<and> best = None) \<or>
      (\<exists>i. first_max_at rank_date rows i \<and> best = Some (rows ! i)))"

text \<open>\<open>obtained res rows\<close>: the API client returned a response that the normalizer turns
  into \<open>rows\<close>, all of them rows with a text name and category.\<close>

definition obtained :: "error + pyval \<Rightarrow> driver_row list \<Rightarrow> bool" where
  "obtained res rows =
     (\<exists>data. res = Inr data \<and> parse_rows data = Inr rows \<and> list_all text_row rows)"

text \<open>The run of the selector without the selection, which the proof goes through:
  the rows that pass the filter, one list per OS code.\<close>

fun queried_rows ::
  "network \<Rightarrow> string \<Rightarrow> string \<Rightarrow> string list \<Rightarrow> world \<Rightarrow> error + driver_row list list" where
  "queried_rows net productcode country [] w = Inr []"
| "queried_rows net productcode country (oscode # rest) w =
     (case call_dell_api net productcode oscode country 3 (Finite 2) w of
        (Inl e, w1) \<Rightarrow> Inl e
      | (Inr data, w1) \<Rightarrow>
          (case cpld_rows_of data of
             Inl e \<Rightarrow> Inl e
           | Inr rows \<Rightarrow>
               (case queried_rows net productcode country rest w1 of
                  Inl e \<Rightarrow> Inl e
                | Inr rss \<Rightarrow> Inr (rows # rss))))"

subsection \<open>Responses the normalizer accepts\<close>

text \<open>
  \<open>row_shape_ok\<close>: the entry is a dict in which \<open>FileFrmtInfo\<close> is missing, false or a
  dict. Every other field may be missing or of any type.

  \<open>normalizable\<close>: the responses on which the normalizer is to return. The response is
  false (absent, empty), or it is a dict whose \<open>DriverListData\<close> is missing or a list
  of such entries; or nothing is there to iterate over: \<open>DriverListData\<close> is an empty
  str or an empty dict, or the response is a list or a str in which "DriverListData"
  does not occur.
\<close>

definition false_or_dict :: "pyval \<Rightarrow> bool" where
  "false_or_dict v = (case v of PDict kvs \<Rightarrow> True | _ \<Rightarrow> \<not> py_truthy v)"

definition row_shape_ok :: "pyval \<Rightarrow> bool" where
  "row_shape_ok d =
     (case d of PDict kvs \<Rightarrow> false_or_dict (dict_get kvs ''FileFrmtInfo'' PNone) | _ \<Rightarrow> False)"

definition normalizable :: "pyval \<Rightarrow> bool" where
  "normalizable j =
     (\<not> py_truthy j \<or>
      (case j of
         PDict kvs \<Rightarrow>
           (case map_of kvs ''DriverListData'' of
              None \<Rightarrow> True
            | Some (PList ds) \<Rightarrow> list_all row_shape_ok ds
            | Some (PDict entries) \<Rightarrow> entries = []
            | Some (PStr s) \<Rightarrow> s = []
            | Some other \<Rightarrow> False)
       | PList xs \<Rightarrow> PStr ''DriverListData'' \<notin> set xs
       | PStr s \<Rightarrow> \<not> sublist ''DriverListData'' s
       | _ \<Rightarrow> False))"

text \<open>\<open>driver_entries j\<close>: the entries of the driver list of a response, none when the
  response holds no list of entries.\<close>

definition driver_entries :: "pyval \<Rightarrow> pyval list" where
  "driver_entries j =
     (case j of
        PDict kvs \<Rightarrow> (case map_of kvs ''DriverListData'' of Some (PList ds) \<Rightarrow> ds | _ \<Rightarrow> [])
      | _ \<Rightarrow> [])"

text \<open>
  The normalized row of an entry, field by field as section 4.2 of the specification
  lists them. \<open>lookup d k dflt\<close>: the value of field \<open>k\<close> of \<open>d\<close>, and \<open>dflt\<close> when \<open>d\<close> has
  no such field or is no dict. \<open>first_true\<close>: the first of three values that is true,
  and the last one when none is.
\<close>

definition lookup :: "pyval \<Rightarrow> string \<Rightarrow> pyval \<Rightarrow> pyval" where
  "lookup d k dflt =
     (case d of
        PDict kvs \<Rightarrow> (case map_of kvs k of None \<Rightarrow> dflt | Some v \<Rightarrow> v)
      | _ \<Rightarrow> dflt)"

definition first_true :: "pyval \<Rightarrow> pyval \<Rightarrow> pyval \<Rightarrow> pyval" where
  "first_true a b c = (if py_truthy a then a else if py_truthy b then b else c)"

definition normalized :: "pyval \<Rightarrow> driver_row" where
  "normalized d =
     \<lparr> ReleaseDate = parse_date (lookup d ''ReleaseDate'' PNone),
       ReleaseDateRaw = lookup d ''ReleaseDate'' PNone,
       LastUpdate = parse_date (lookup d ''LUPDDate'' PNone),
       UpdateStatus = lookup d ''Imp'' PNone,
       Version = lookup d ''DellVer'' PNone,
       Name = lookup d ''DriverName'' (PStr []),
       Category = lookup d ''Category'' (PStr []),
       DriverId = first_true (lookup d ''DriverId'' PNone) (lookup d ''DriverIdEN'' PNone)
                    (lookup (lookup d ''FileFrmtInfo'' PNone) ''FileId'' PNone),
       DownloadUrl = lookup (lookup d ''FileFrmtInfo'' PNone) ''Path'' PNone \<rparr>"

subsection \<open>Outcomes of a request\<close>

text \<open>\<open>http_ok\<close>: an HTTP 200 response whose content type says JSON. \<open>raised\<close>: the
  request ended in an exception. \<open>new_events w w1\<close>: what a call that took the world
  from \<open>w\<close> to \<open>w1\<close> printed, slept and warned. \<open>is_warning\<close>: the event is a warning of
  the \<open>warnings\<close> module, as opposed to a printed line.\<close>

definition http_ok :: "http_outcome \<Rightarrow> bool" where
  "http_ok outcome =
     (case outcome of
        Raises e \<Rightarrow> False
      | Response status content_type body \<Rightarrow>
          status = 200 \<and> prefix ''application/json'' (case content_type of None \<Rightarrow> [] | Some c \<Rightarrow> c))"

definition raised :: "http_outcome \<Rightarrow> bool" where
  "raised outcome = (case outcome of Raises e \<Rightarrow> True | Response status content_type body \<Rightarrow> False)"

definition new_events :: "world \<Rightarrow> world \<Rightarrow> event list" where
  "new_events w w1 = drop (length (trace w)) (trace w1)"

definition is_warning :: "event \<Rightarrow> bool" where
  "is_warning ev = (case ev of Warning p os e \<Rightarrow> True | _ \<Rightarrow> False)"

text \<open>\<open>sleeps_fit backoff retries\<close>: every wait \<open>backoff * attempt\<close> of a run with that
  many attempts is a length \<open>time.sleep\<close> accepts. The backoff is a finite number that
  is not negative, and the longest wait, \<open>backoff * retries\<close>, is at most 9223372036
  seconds, which is below \<open>2 ^ 63\<close> nanoseconds; the attempt numbers convert to a float.
  The defaults, 2.0 and 3, fit.\<close>

definition sleeps_fit :: "pyfloat \<Rightarrow> int \<Rightarrow> bool" where
  "sleeps_fit backoff retries =
     (case backoff of
        Finite b \<Rightarrow> 0 \<le> b \<and> b * of_int retries \<le> 9223372036 \<and> retries \<le> 2 ^ 1000
      | _ \<Rightarrow> False)"

text \<open>A vendor whose second answer is a network error and whose other answers are
  HTTP 503 pages.\<close>

definition failing_net :: network where
  "failing_net n req =
     (if n = 1 then Raises ''connection timed out''
      else Response 503 (Some ''text/html'') (Inl ''no JSON''))"

subsection \<open>Files\<close>

text \<open>\<open>no_file_on_path fs q\<close>: neither \<open>q\<close> nor a directory above it is a regular
  file, so that \<open>q\<close> exists as a directory or can be made one. \<open>holds_text fs p\<close>: if
  there is a file at \<open>p\<close>, its bytes are the UTF-8 encoding of a text. \<open>old_text fs p\<close>:
  what the writer takes as the existing content of \<open>p\<close>, the empty text when there is
  no such file. \<open>OUT_PATH\<close> is the path the program writes. \<open>codes\<close> gives the code
  points of a text written with characters below 256. \<open>plain_digest\<close> stands in for
  the hash in examples: the text itself, a digest without collisions.\<close>

definition is_file :: "node option \<Rightarrow> bool" where
  "is_file n = (case n of Some (File x) \<Rightarrow> True | _ \<Rightarrow> False)"

definition no_file_on_path :: "filesystem \<Rightarrow> path \<Rightarrow> bool" where
  "no_file_on_path fs q = (\<forall>r. prefix r q \<longrightarrow> \<not> is_file (node_at fs r))"

definition holds_text :: "filesystem \<Rightarrow> path \<Rightarrow> bool" where
  "holds_text fs p =
     (case node_at fs p of
        Some (File None) \<Rightarrow> False
      | Some (File (Some stored)) \<Rightarrow> encodable stored
      | _ \<Rightarrow> True)"

definition old_text :: "filesystem \<Rightarrow> path \<Rightarrow> codepoints" where
  "old_text fs p =
     (case node_at fs p of Some (File (Some stored)) \<Rightarrow> universal_newlines stored | _ \<Rightarrow> [])"

definition OUT_PATH :: path where
  "OUT_PATH = [''docs'', ''cpld_latest.json'']"

definition codes :: "string \<Rightarrow> codepoints" where
  "codes s = map of_char s"

definition plain_digest :: "codepoints \<Rightarrow> codepoints" where
  "plain_digest s = s"

definition snapshot_present :: filesystem where
  "snapshot_present = [[''docs''] \<mapsto> Dir, OUT_PATH \<mapsto> File (Some (codes ''{}''))]"

subsection \<open>Catalog matches\<close>














subsection \<open>The day-month-year format\<close>

text \<open>
  What the format \<open>%d %b %Y\<close> denotes, said without the matching procedure. A text
  spells the date (y, m, d) when it is a day text, white space, a month text, white
  space and a year text, in this order and with nothing else: the day text is the day
  of the month in one or two digits (01 to 31, a single digit possibly padded with a
  zero or a space), the month text is the English three-letter abbreviation of month
  \<open>m\<close> in any letter case, the year text is four digits.

  \<open>dd_mon_yyyy\<close> is the canonical text of a date: two digits, a space, the capitalised
  abbreviation, a space, four digits, as in "15 Mar 2023".
\<close>

definition spaces :: "string \<Rightarrow> bool" where
  "spaces w = (w \<noteq> [] \<and> list_all is_space w)"

definition day_text :: "string \<Rightarrow> bool" where
  "day_text t =
     (case t of
        [a] \<Rightarrow> is_digit19 a
      | [a, b] \<Rightarrow>
          (a = CHR ''3'' \<and> (b = CHR ''0'' \<or> b = CHR ''1''))
          \<or> ((a = CHR ''1'' \<or> a = CHR ''2'') \<and> is_digit b)
          \<or> ((a = CHR ''0'' \<or> a = CHR '' '') \<and> is_digit19 b)
      | _ \<Rightarrow> False)"

definition month_text :: "string \<Rightarrow> nat \<Rightarrow> bool" where
  "month_text t m = (length t = 3 \<and> 1 \<le> m \<and> m \<le> 12 \<and> py_lower t = month_abbrs ! (m - 1))"

definition year_text :: "string \<Rightarrow> bool" where
  "year_text t = (length t = 4 \<and> list_all is_digit t)"

definition spells :: "string \<Rightarrow> date \<Rightarrow> bool" where
  "spells s dt =
     (case dt of (y, m, d) \<Rightarrow>
        \<exists>dtx w1 mtx w2 ytx.
          s = dtx @ w1 @ mtx @ w2 @ ytx
          \<and> day_text dtx \<and> spaces w1 \<and> month_text mtx m \<and> spaces w2 \<and> year_text ytx
          \<and> d = int_of_text dtx \<and> y = digits_value ytx)"

definition month_names :: "string list" where
  "month_names = [''Jan'', ''Feb'', ''Mar'', ''Apr'', ''May'', ''Jun'',
                  ''Jul'', ''Aug'', ''Sep'', ''Oct'', ''Nov'', ''Dec'']"

definition dd_mon_yyyy :: "date \<Rightarrow> string" where
  "dd_mon_yyyy dt =
     (case dt of (y, m, d) \<Rightarrow> pad2 d @ '' '' @ month_names ! (m - 1) @ '' '' @ pad4 y)"

section \<open>Sorting in descending order keeps the first of the greatest\<close>

lemma last_insort_key:
  "last (insort_key k x xs) = (if \<forall>y\<in>set xs. k y < k x then x else last xs)"
  by (induction xs) (auto simp: not_less)

lemma insort_key_not_Nil: "insort_key k x xs \<noteq> []"
  by (cases xs) auto

lemma py_sort_reverse_Nil: "py_sort_reverse k xs = [] \<longleftrightarrow> xs = []"
  by (metis py_sort_reverse_def length_sort length_rev length_0_conv)

lemma hd_py_sort_reverse_snoc:
  "hd (py_sort_reverse k (xs @ [x])) =
     (if \<forall>y\<in>set xs. k y < k x then x else hd (py_sort_reverse k xs))"
proof -
  have "hd (py_sort_reverse k (xs @ [x])) = last (insort_key k x (sort_key k (rev xs)))"
    by (simp add: py_sort_reverse_def hd_rev insort_key_not_Nil)
  also have "\<dots> = (if \<forall>y\<in>set xs. k y < k x then x else last (sort_key k (rev xs)))"
    by (simp add: last_insort_key)
  also have "last (sort_key k (rev xs)) = hd (py_sort_reverse k xs)"
    by (simp add: py_sort_reverse_def hd_rev)
  finally show ?thesis .
qed

lemma first_max_at_unique:
  "first_max_at k xs i \<Longrightarrow> first_max_at k xs j \<Longrightarrow> i = j"
  unfolding first_max_at_def
  by (metis linorder_neqE_nat not_less)

lemma hd_py_sort_reverse:
  "xs \<noteq> [] \<Longrightarrow> \<exists>i. first_max_at k xs i \<and> hd (py_sort_reverse k xs) = xs ! i"
proof (induction xs rule: rev_induct)
  case Nil
  then show ?case by simp
next
  case (snoc x xs)
  show ?case
  proof (cases "xs = []")
    case True
    then show ?thesis
      by (auto simp: first_max_at_def py_sort_reverse_def)
  next
    case False
    with snoc.IH obtain i where i: "first_max_at k xs i" and h: "hd (py_sort_reverse k xs) = xs ! i"
      by blast
    show ?thesis
    proof (cases "\<forall>y\<in>set xs. k y < k x")
      case True
      have "first_max_at k (xs @ [x]) (length xs)"
        using True by (auto simp: first_max_at_def nth_append less_Suc_eq intro: less_imp_le)
      moreover have "hd (py_sort_reverse k (xs @ [x])) = (xs @ [x]) ! length xs"
        using True by (simp add: hd_py_sort_reverse_snoc)
      ultimately show ?thesis by blast
    next
      case F: False
      then obtain y where y: "y \<in> set xs" "k x \<le> k y" by (auto simp: not_less)
      then obtain j where j: "j < length xs" "xs ! j = y" by (auto simp: in_set_conv_nth)
      from i j y have kx: "k x \<le> k (xs ! i)"
        unfolding first_max_at_def by (metis order_trans)
      have "first_max_at k (xs @ [x]) i"
        using i kx by (auto simp: first_max_at_def nth_append less_Suc_eq)
      moreover have "hd (py_sort_reverse k (xs @ [x])) = (xs @ [x]) ! i"
        using F h i by (auto simp: hd_py_sort_reverse_snoc first_max_at_def nth_append)
      ultimately show ?thesis by blast
    qed
  qed
qed

lemma first_max_at_append_right:
  assumes "first_max_at k xs i" "first_max_at k ys b" "k (ys ! b) < k (xs ! i)"
  shows "first_max_at k (ys @ xs) (length ys + i)"
  using assms unfolding first_max_at_def
  by (auto simp: nth_append intro: less_imp_le dest: le_less_trans)

lemma first_max_at_append_left:
  assumes "first_max_at k xs i" "first_max_at k ys b" "\<not> k (ys ! b) < k (xs ! i)"
  shows "first_max_at k (ys @ xs) b"
proof -
  have le: "k (xs ! i) \<le> k (ys ! b)" using assms(3) by (simp add: not_less)
  have "k ((ys @ xs) ! j) \<le> k (ys ! b)" if "j < length (ys @ xs)" for j
  proof (cases "j < length ys")
    case True
    with assms(2) show ?thesis by (simp add: first_max_at_def nth_append)
  next
    case False
    with that have "j - length ys < length xs" by simp
    with assms(1) have "k (xs ! (j - length ys)) \<le> k (xs ! i)"
      by (simp add: first_max_at_def)
    with le False show ?thesis by (simp add: nth_append)
  qed
  with assms(2) show ?thesis
    by (simp add: first_max_at_def nth_append)
qed



section \<open>The CPLD filter\<close>

lemma sublist_map_iff:
  "sublist a (map f s) \<longleftrightarrow> (\<exists>pre mid suf. s = pre @ mid @ suf \<and> map f mid = a)"
proof
  assume "sublist a (map f s)"
  then obtain ps ss where "map f s = ps @ a @ ss" by (auto simp: sublist_def)
  then obtain us vs where s: "s = us @ vs" and vs: "map f vs = a @ ss"
    by (metis map_eq_append_conv)
  from vs obtain mid suf where "vs = mid @ suf" "map f mid = a"
    by (metis map_eq_append_conv)
  with s show "\<exists>pre mid suf. s = pre @ mid @ suf \<and> map f mid = a"
    by blast
next
  assume "\<exists>pre mid suf. s = pre @ mid @ suf \<and> map f mid = a"
  then obtain pre mid suf where "s = pre @ mid @ suf" "map f mid = a" by blast
  then have "map f s = map f pre @ a @ map f suf" by simp
  then show "sublist a (map f s)" unfolding sublist_def by blast
qed

lemma contains_ci_iff: "contains_ci needle s \<longleftrightarrow> sublist needle (py_lower s)"
  unfolding contains_ci_def py_lower_def sublist_map_iff by (rule refl)

lemma lower_method_or_empty:
  "text_or_false v \<Longrightarrow> lower_method (py_or v (PStr [])) = Inr (py_lower (text_of v))"
  by (cases v) (auto simp: text_or_false_def lower_method_def py_or_def text_of_def py_lower_def)

text \<open>A name or a category that is true and no str makes the filter raise: the
  hypotheses of the next theorem are exactly the rows on which it returns.\<close>

lemma is_cpld_raises:
  assumes "(py_truthy (Name row) \<and> (\<forall>s. Name row \<noteq> PStr s))
           \<or> (py_truthy (Category row) \<and> (\<forall>s. Category row \<noteq> PStr s))"
  shows "is_cpld row = Inl AttributeError"
  using assms
  by (cases "Name row"; cases "Category row")
     (auto simp: is_cpld_def lower_method_def py_or_def)

text \<open>
  Claim C2. For every normalized row whose name and category hold text, the CPLD
  filter returns true if and only if the lowercased name or the lowercased category
  contains the substring "cpld", or the lowercased name contains the phrase "complex
  programmable logic". The second equation says the same with containment ignoring
  case, as section 8 of the specification words it.
\<close>

theorem is_cpld_iff:
  assumes "text_or_false (Name row)" and "text_or_false (Category row)"
  shows "is_cpld row =
           Inr (sublist ''cpld'' (py_lower (text_of (Name row)))
                \<or> sublist ''cpld'' (py_lower (text_of (Category row)))
                \<or> sublist ''complex programmable logic'' (py_lower (text_of (Name row))))
       \<and> is_cpld row =
           Inr (contains_ci ''cpld'' (text_of (Name row))
                \<or> contains_ci ''cpld'' (text_of (Category row))
                \<or> contains_ci ''complex programmable logic'' (text_of (Name row)))"
  using assms
  by (simp add: is_cpld_def lower_method_or_empty contains_ci_iff)

theorem is_cpld_iff_witness:
  "is_cpld (cpld_row ''1.2'' ''10 Jan 2024'' None) = Inr True
   \<and> is_cpld ((cpld_row ''1.2'' ''10 Jan 2024'' None)\<lparr>Name := PStr ''BIOS'', Category := PNone\<rparr>)
       = Inr False"
  using is_cpld_iff [of "cpld_row ''1.2'' ''10 Jan 2024'' None"]
    is_cpld_iff [of "(cpld_row ''1.2'' ''10 Jan 2024'' None)\<lparr>Name := PStr ''BIOS'', Category := PNone\<rparr>"]
  by (simp add: cpld_row_def text_or_false_def text_of_def py_lower_def py_lower_char_def
      sublist_code)

section \<open>The latest selector returns the first of the most recent CPLD rows\<close>

lemma release_key_rank_date: "release_key r = rank_date r"
  by (cases "ReleaseDate r") (simp_all add: release_key_def rank_date_def)

lemma is_first_latest_release_key:
  "is_first_latest rows best \<longleftrightarrow>
     ((rows = [] \<and> best = None) \<or>
      (\<exists>i. first_max_at release_key rows i \<and> best = Some (rows ! i)))"
proof -
  have "release_key = rank_date" by (rule ext) (rule release_key_rank_date)
  then show ?thesis by (simp add: is_first_latest_def)
qed

lemma better_first_latest:
  assumes pre: "is_first_latest pre best"
    and rows: "rows \<noteq> []"
  shows "is_first_latest (pre @ rows) (better best (hd (py_sort_reverse release_key rows)))"
proof -
  from hd_py_sort_reverse [OF rows, of release_key]
  obtain i where i: "first_max_at release_key rows i"
    and h: "hd (py_sort_reverse release_key rows) = rows ! i" by blast
  show ?thesis
  proof (cases best)
    case None
    with pre have "pre = []" by (auto simp: is_first_latest_release_key first_max_at_def)
    with None i h show ?thesis by (auto simp: is_first_latest_release_key better_def)
  next
    case (Some b)
    with pre obtain n where n: "first_max_at release_key pre n" "b = pre ! n"
      by (auto simp: is_first_latest_release_key)
    show ?thesis
    proof (cases "release_key (pre ! n) < release_key (rows ! i)")
      case True
      have "better best (hd (py_sort_reverse release_key rows)) =
              Some ((pre @ rows) ! (length pre + i))"
        using True Some n h by (simp add: better_def)
      with first_max_at_append_right [OF i n(1) True] show ?thesis
        unfolding is_first_latest_release_key by blast
    next
      case False
      have "n < length pre" using n(1) by (simp add: first_max_at_def)
      then have "better best (hd (py_sort_reverse release_key rows)) = Some ((pre @ rows) ! n)"
        using False Some n h by (simp add: better_def nth_append)
      with first_max_at_append_left [OF i n(1) False] show ?thesis
        unfolding is_first_latest_release_key by blast
    qed
  qed
qed

lemma select_loop_first_latest:
  assumes "queried_rows net productcode country oscodes w = Inr rss"
    and "is_first_latest pre best"
  shows "\<exists>r. fst (select_loop net productcode country oscodes best w) = Inr r
            \<and> is_first_latest (pre @ concat rss) r"
  using assms
proof (induction oscodes arbitrary: w best pre rss)
  case Nil
  then show ?case by simp
next
  case (Cons oscode rest)
  from Cons.prems(1) obtain data w1 rows rss1 where
    call: "call_dell_api net productcode oscode country 3 (Finite 2) w = (Inr data, w1)"
    and rows: "cpld_rows_of data = Inr rows"
    and rest: "queried_rows net productcode country rest w1 = Inr rss1"
    and rss: "rss = rows # rss1"
    by (auto split: prod.splits sum.splits)
  show ?case
  proof (cases "rows = []")
    case True
    with Cons.IH [OF rest Cons.prems(2)] call rows rss show ?thesis by simp
  next
    case False
    then obtain candidate others where
      s: "py_sort_reverse release_key rows = candidate # others"
      by (cases "py_sort_reverse release_key rows") (auto simp: py_sort_reverse_Nil)
    then have c: "candidate = hd (py_sort_reverse release_key rows)" by simp
    have "is_first_latest (pre @ rows) (better best candidate)"
      unfolding c by (rule better_first_latest [OF Cons.prems(2) False])
    from Cons.IH [OF rest this] call rows rss s False show ?thesis by simp
  qed
qed

text \<open>If a response cannot be normalized or filtered, the selector raises what the
  normalizer or the filter raised.\<close>

lemma select_loop_raises:
  assumes "queried_rows net productcode country oscodes w = Inl e"
  shows "fst (select_loop net productcode country oscodes best w) = Inl e"
  using assms
proof (induction oscodes arbitrary: w best)
  case Nil
  then show ?case by simp
next
  case (Cons oscode rest)
  obtain res w1 where c: "call_dell_api net productcode oscode country 3 (Finite 2) w = (res, w1)"
    by (cases "call_dell_api net productcode oscode country 3 (Finite 2) w") auto
  show ?case
  proof (cases res)
    case (Inl x)
    with c Cons.prems show ?thesis by simp
  next
    case (Inr data)
    show ?thesis
    proof (cases "cpld_rows_of data")
      case (Inl x)
      with c Inr Cons.prems show ?thesis by simp
    next
      case rows: (Inr rows)
      with c Inr Cons.prems have q: "queried_rows net productcode country rest w1 = Inl e"
        by (simp split: sum.splits)
      show ?thesis
      proof (cases "rows = []")
        case True
        with c Inr rows Cons.IH [OF q] show ?thesis by simp
      next
        case False
        then obtain candidate others where
          "py_sort_reverse release_key rows = candidate # others"
          by (cases "py_sort_reverse release_key rows") (auto simp: py_sort_reverse_Nil)
        with c Inr rows False Cons.IH [OF q] show ?thesis by simp
      qed
    qed
  qed
qed

text \<open>On rows with a text name and category, the comprehension keeps exactly the rows
  of the CPLD category, in their order.\<close>

lemma is_cpld_names_cpld: "text_row r \<Longrightarrow> is_cpld r = Inr (names_cpld r)"
  by (simp add: text_row_def is_cpld_def lower_method_or_empty contains_ci_iff names_cpld_def)

lemma filter_cpld_names_cpld:
  "list_all text_row rows \<Longrightarrow> filter_cpld rows = Inr (filter names_cpld rows)"
  by (induction rows) (simp_all add: is_cpld_names_cpld)

lemma queried_rows_fetched:
  assumes "list_all2 obtained (fetched net productcode country oscodes w) rowss"
  shows "queried_rows net productcode country oscodes w = Inr (map (filter names_cpld) rowss)"
  using assms
proof (induction oscodes arbitrary: w rowss)
  case Nil
  then show ?case by simp
next
  case (Cons oscode rest)
  obtain res w1 where
    c: "call_dell_api net productcode oscode country 3 (Finite 2) w = (res, w1)"
    by (cases "call_dell_api net productcode oscode country 3 (Finite 2) w") auto
  with Cons.prems obtain rows rest_rows where
    r: "rowss = rows # rest_rows" "obtained res rows"
    and l: "list_all2 obtained (fetched net productcode country rest w1) rest_rows"
    by (auto simp: list_all2_Cons1)
  from r(2) obtain data where
    d: "res = Inr data" "parse_rows data = Inr rows" "list_all text_row rows"
    by (auto simp: obtained_def)
  have "cpld_rows_of data = Inr (filter names_cpld rows)"
    using d by (simp add: cpld_rows_of_def filter_cpld_names_cpld)
  with c d(1) r(1) Cons.IH [OF l] show ?case by simp
qed

lemma effective_oscodes_queried: "effective_oscodes oscodes = oscodes_queried oscodes"
proof (cases oscodes)
  case None
  then show ?thesis
    by (simp add: effective_oscodes_def oscodes_queried_def DEFAULT_OSCODES_def)
next
  case (Some l)
  then show ?thesis
    by (cases l) (simp_all add: effective_oscodes_def oscodes_queried_def DEFAULT_OSCODES_def)
qed

text \<open>
  Claim C1. For every product code and ordered list of OS codes (the default list
  when none is given): when the API client returns, for each OS code in turn, a
  response that the normalizer turns into rows with a text name and category, the
  latest selector returns, among all rows of the CPLD category obtained across the
  queried OS codes, the row whose release date is most recent (a row without a parsed
  date counting as \<open>date_min\<close>), and among several such rows the first one in the order
  of the OS codes and then of the response; it returns an absent value when no row of
  the CPLD category was obtained. Being the first, a row of an earlier OS code wins
  over a row of a later one with exactly the same date.
\<close>

theorem find_latest_cpld_first_latest:
  assumes "list_all2 obtained
             (fetched net productcode country (oscodes_queried oscodes) w) rowss"
  shows "\<exists>r. fst (find_latest_cpld net productcode oscodes country w) = Inr r
            \<and> is_first_latest (concat (map (filter names_cpld) rowss)) r"
proof -
  have e: "is_first_latest [] None" by (simp add: is_first_latest_def)
  from queried_rows_fetched [OF assms] have
    "queried_rows net productcode country (effective_oscodes oscodes) w
       = Inr (map (filter names_cpld) rowss)"
    by (simp add: effective_oscodes_queried)
  from select_loop_first_latest [OF this e] show ?thesis
    by (simp add: find_latest_cpld_def)
qed

lemma example_rows_names_cpld:
  "names_cpld (cpld_row v d p)" "\<not> names_cpld (bios_row v d p)"
  by (simp_all add: names_cpld_def contains_ci_iff cpld_row_def bios_row_def text_of_def
      py_lower_def py_lower_char_def sublist_code)

theorem find_latest_cpld_first_latest_witness:
  "list_all2 obtained
     (fetched example_net ''R750'' COUNTRY (oscodes_queried (Some [''A'', ''B'', ''C''])) world0)
     [[cpld_row ''1.0'' ''01 Jan 2023'' (Some (2023, 1, 1)),
       bios_row ''2.5'' ''01 Feb 2025'' (Some (2025, 2, 1))],
      [cpld_row ''1.2'' ''01 Jun 2024'' (Some (2024, 6, 1))],
      [cpld_row ''1.3'' ''01 Jun 2024'' (Some (2024, 6, 1))]]
   \<and> fst (find_latest_cpld example_net ''R750'' (Some [''A'', ''B'', ''C'']) COUNTRY world0)
     = Inr (Some (cpld_row ''1.2'' ''01 Jun 2024'' (Some (2024, 6, 1))))"
proof -
  let ?rowss = "[[cpld_row ''1.0'' ''01 Jan 2023'' (Some (2023, 1, 1)),
       bios_row ''2.5'' ''01 Feb 2025'' (Some (2025, 2, 1))],
      [cpld_row ''1.2'' ''01 Jun 2024'' (Some (2024, 6, 1))],
      [cpld_row ''1.3'' ''01 Jun 2024'' (Some (2024, 6, 1))]]"
  have f: "fetched example_net ''R750'' COUNTRY (oscodes_queried (Some [''A'', ''B'', ''C''])) world0
     = [Inr (driver_list [cpld_entry ''1.0'' ''01 Jan 2023'', bios_entry ''2.5'' ''01 Feb 2025'']),
        Inr (driver_list [cpld_entry ''1.2'' ''01 Jun 2024'']),
        Inr (driver_list [cpld_entry ''1.3'' ''01 Jun 2024''])]"
    by (simp add: oscodes_queried_def call_dell_api_def upto.simps attempt_once_def
        example_net_def json_response_def world0_def COUNTRY_def emit_def)
  have p1: "parse_rows (driver_list [cpld_entry ''1.0'' ''01 Jan 2023'', bios_entry ''2.5'' ''01 Feb 2025''])
      = Inr [cpld_row ''1.0'' ''01 Jan 2023'' (Some (2023, 1, 1)),
             bios_row ''2.5'' ''01 Feb 2025'' (Some (2025, 2, 1))]"
    by code_simp
  have p2: "parse_rows (driver_list [cpld_entry ''1.2'' ''01 Jun 2024''])
      = Inr [cpld_row ''1.2'' ''01 Jun 2024'' (Some (2024, 6, 1))]"
    by code_simp
  have p3: "parse_rows (driver_list [cpld_entry ''1.3'' ''01 Jun 2024''])
      = Inr [cpld_row ''1.3'' ''01 Jun 2024'' (Some (2024, 6, 1))]"
    by code_simp
  have t: "text_row (cpld_row v d p)" "text_row (bios_row v d p)" for v d p
    by (simp_all add: text_row_def text_or_false_def cpld_row_def bios_row_def)
  have h: "list_all2 obtained
     (fetched example_net ''R750'' COUNTRY (oscodes_queried (Some [''A'', ''B'', ''C''])) world0)
     ?rowss"
    unfolding f by (simp add: obtained_def p1 p2 p3 t)
  from find_latest_cpld_first_latest [OF h] obtain r where
    r: "fst (find_latest_cpld example_net ''R750'' (Some [''A'', ''B'', ''C'']) COUNTRY world0) = Inr r"
    and l: "is_first_latest (concat (map (filter names_cpld) ?rowss)) r"
    by blast
  have "concat (map (filter names_cpld) ?rowss)
      = [cpld_row ''1.0'' ''01 Jan 2023'' (Some (2023, 1, 1)),
         cpld_row ''1.2'' ''01 Jun 2024'' (Some (2024, 6, 1)),
         cpld_row ''1.3'' ''01 Jun 2024'' (Some (2024, 6, 1))]"
    by (simp add: example_rows_names_cpld)
  with l obtain i where
    i: "first_max_at rank_date
          [cpld_row ''1.0'' ''01 Jan 2023'' (Some (2023, 1, 1)),
           cpld_row ''1.2'' ''01 Jun 2024'' (Some (2024, 6, 1)),
           cpld_row ''1.3'' ''01 Jun 2024'' (Some (2024, 6, 1))] i"
    and ri: "r = Some ([cpld_row ''1.0'' ''01 Jan 2023'' (Some (2023, 1, 1)),
           cpld_row ''1.2'' ''01 Jun 2024'' (Some (2024, 6, 1)),
           cpld_row ''1.3'' ''01 Jun 2024'' (Some (2024, 6, 1))] ! i)"
    by (auto simp: is_first_latest_def)
  have k: "rank_date (cpld_row v d (Some x)) = x" for v d x
    by (simp add: rank_date_def cpld_row_def)
  from i have "i < 3" by (simp add: first_max_at_def)
  then consider "i = 0" | "i = 1" | "i = 2" by linarith
  then have "i = 1"
  proof cases
    case 1
    with i have "(2024, 6, 1) \<le> ((2023, 1, 1) :: date)"
      by (auto simp: first_max_at_def k dest: spec [of _ 1])
    then show ?thesis by simp
  next
    case 2
    then show ?thesis .
  next
    case 3
    with i have "(2024, 6, 1) < ((2024, 6, 1) :: date)"
      by (auto simp: first_max_at_def k dest: spec [of _ 1])
    then show ?thesis by simp
  qed
  with ri have "r = Some (cpld_row ''1.2'' ''01 Jun 2024'' (Some (2024, 6, 1)))" by simp
  with h r show ?thesis by simp
qed

section \<open>The release date of the snapshot record\<close>




section \<open>Rows without a parsed date\<close>

lemma parse_date_valid: "parse_date v = Some d \<Longrightarrow> valid_date d"
  by (auto simp: parse_date_def strptime_def make_date_def
      split: sum.splits pyval.splits option.splits prod.splits if_splits)

lemma valid_date_min: "valid_date d \<Longrightarrow> date_min \<le> d"
  by (cases d) (auto simp: valid_date_def date_min_def less_eq_prod_def)

lemma sorted_desc_py_sort_reverse:
  "sorted (rev (map k (py_sort_reverse k xs)))"
  by (simp add: py_sort_reverse_def rev_map)

lemma set_py_sort_reverse: "set (py_sort_reverse k xs) = set xs"
  by (simp add: py_sort_reverse_def)

lemma length_py_sort_reverse: "length (py_sort_reverse k xs) = length xs"
  by (simp add: py_sort_reverse_def)

lemma py_sort_reverse_descending:
  assumes "i < j" "j < length xs"
  shows "k (py_sort_reverse k xs ! j) \<le> k (py_sort_reverse k xs ! i)"
proof -
  let ?s = "py_sort_reverse k xs"
  have len: "length ?s = length xs" by (rule length_py_sort_reverse)
  have "sorted (rev (map k ?s))" by (rule sorted_desc_py_sort_reverse)
  moreover have "length ?s - Suc j < length ?s - Suc i" using assms len by simp
  moreover have "length ?s - Suc i < length (rev (map k ?s))" using assms len by simp
  ultimately have "rev (map k ?s) ! (length ?s - Suc j) \<le> rev (map k ?s) ! (length ?s - Suc i)"
    by (metis sorted_nth_mono less_imp_le)
  then show ?thesis using assms len by (simp add: rev_nth)
qed

text \<open>The sort is stable: the elements with one and the same key are, after the sort,
  in the order they had before.\<close>

lemma py_sort_reverse_stable:
  "filter (\<lambda>x. k x = v) (py_sort_reverse k xs) = filter (\<lambda>x. k x = v) xs"
proof -
  have "filter (\<lambda>x. k x = v) (py_sort_reverse k xs)
          = rev (filter (\<lambda>x. k x = v) (sort_key k (rev xs)))"
    by (simp add: py_sort_reverse_def rev_filter)
  also have "\<dots> = rev (filter (\<lambda>x. k x = v) (rev xs))"
    by (simp only: sort_key_stable)
  also have "\<dots> = filter (\<lambda>x. k x = v) xs"
    by (simp add: rev_filter)
  finally show ?thesis .
qed

lemma dated_before_dateless:
  assumes "i < length rows" and "j < length rows"
    and "ReleaseDate (py_sort_reverse release_key rows ! i) = Some d" and "date_min < d"
    and "ReleaseDate (py_sort_reverse release_key rows ! j) = None"
  shows "i < j"
proof -
  let ?s = "py_sort_reverse release_key rows"
  have ki: "release_key (?s ! i) = d" using assms(3) by (simp add: release_key_def)
  have kj: "release_key (?s ! j) = date_min" using assms(5) by (simp add: release_key_def)
  have "i \<noteq> j" using assms(3,5) by auto
  moreover have "\<not> j < i"
  proof
    assume "j < i"
    from py_sort_reverse_descending [OF this assms(1), of release_key] ki kj assms(4)
    show False by simp
  qed
  ultimately show ?thesis by simp
qed

lemma candidate_is_dated:
  assumes "a \<in> set rows" and "ReleaseDate a = Some d" and "date_min < d"
  shows "ReleaseDate (hd (py_sort_reverse release_key rows)) \<noteq> None"
proof -
  have ka: "release_key a = d" using assms(2) by (simp add: release_key_def)
  have rows: "rows \<noteq> []" using assms(1) by auto
  from hd_py_sort_reverse [OF rows, of release_key] obtain n where
    n: "first_max_at release_key rows n" "hd (py_sort_reverse release_key rows) = rows ! n"
    by blast
  from assms(1) obtain m where m: "m < length rows" "rows ! m = a"
    by (auto simp: in_set_conv_nth)
  with n(1) have "release_key a \<le> release_key (rows ! n)"
    by (auto simp: first_max_at_def)
  with ka assms(3) have "date_min < release_key (rows ! n)" by simp
  then have "ReleaseDate (rows ! n) \<noteq> None"
    by (cases "ReleaseDate (rows ! n)") (simp_all add: release_key_def)
  with n(2) show ?thesis by simp
qed

text \<open>
  Claim C6, as amended. Within one OS code's filtered result set, a row lacking a
  parsed release date is ranked with the date \<open>date_min\<close> (1 January of year 1), which
  is the oldest date the parser can produce. In the sorted list, which holds the rows
  of the result set, every row whose parsed date is later than \<open>date_min\<close> stands
  before every row without a parsed date, wherever and however often they occur; rows
  that are ranked with the same date, so the rows without a date and the rows dated
  \<open>date_min\<close> among themselves, keep the order in which they were listed. If some row
  has a parsed date later than \<open>date_min\<close>, the candidate taken from the head of the
  sorted list has a parsed date.
\<close>

theorem dated_row_outranks_dateless:
  "(\<forall>r. release_key r = rank_date r)
   \<and> (\<forall>v d. parse_date v = Some d \<longrightarrow> date_min \<le> d)
   \<and> length (py_sort_reverse release_key rows) = length rows
   \<and> (\<forall>i j d. i < length rows \<and> j < length rows
          \<and> ReleaseDate (py_sort_reverse release_key rows ! i) = Some d \<and> date_min < d
          \<and> ReleaseDate (py_sort_reverse release_key rows ! j) = None
        \<longrightarrow> i < j)
   \<and> (\<forall>k. filter (\<lambda>r. rank_date r = k) (py_sort_reverse release_key rows)
            = filter (\<lambda>r. rank_date r = k) rows)
   \<and> ((\<exists>a\<in>set rows. \<exists>d. ReleaseDate a = Some d \<and> date_min < d)
        \<longrightarrow> ReleaseDate (hd (py_sort_reverse release_key rows)) \<noteq> None)"
proof -
  have 1: "\<forall>r. release_key r = rank_date r" by (simp add: release_key_rank_date)
  have 2: "\<forall>v d. parse_date v = Some d \<longrightarrow> date_min \<le> d"
    using parse_date_valid valid_date_min by blast
  have 3: "length (py_sort_reverse release_key rows) = length rows"
    by (rule length_py_sort_reverse)
  have 4: "\<forall>i j d. i < length rows \<and> j < length rows
          \<and> ReleaseDate (py_sort_reverse release_key rows ! i) = Some d \<and> date_min < d
          \<and> ReleaseDate (py_sort_reverse release_key rows ! j) = None
        \<longrightarrow> i < j"
    using dated_before_dateless by blast
  have "filter (\<lambda>r. release_key r = k) (py_sort_reverse release_key rows)
            = filter (\<lambda>r. release_key r = k) rows" for k
    by (rule py_sort_reverse_stable)
  then have 5: "\<forall>k. filter (\<lambda>r. rank_date r = k) (py_sort_reverse release_key rows)
            = filter (\<lambda>r. rank_date r = k) rows"
    by (simp add: release_key_rank_date)
  have 6: "(\<exists>a\<in>set rows. \<exists>d. ReleaseDate a = Some d \<and> date_min < d)
        \<longrightarrow> ReleaseDate (hd (py_sort_reverse release_key rows)) \<noteq> None"
    using candidate_is_dated by blast
  from 1 2 3 4 5 6 show ?thesis by blast
qed

theorem dated_row_outranks_dateless_witness:
  "date_min < (2024, 1, 10)
   \<and> py_sort_reverse release_key
        [cpld_row ''1.0'' ''n/a'' None, cpld_row ''1.2'' ''10 Jan 2024'' (Some (2024, 1, 10)),
         cpld_row ''0.9'' ''01 Jan 0001'' (Some (1, 1, 1)), cpld_row ''0.8'' [] None]
     = [cpld_row ''1.2'' ''10 Jan 2024'' (Some (2024, 1, 10)), cpld_row ''1.0'' ''n/a'' None,
        cpld_row ''0.9'' ''01 Jan 0001'' (Some (1, 1, 1)), cpld_row ''0.8'' [] None]
   \<and> ReleaseDate (hd (py_sort_reverse release_key
        [cpld_row ''1.0'' ''n/a'' None, cpld_row ''1.2'' ''10 Jan 2024'' (Some (2024, 1, 10)),
         cpld_row ''0.9'' ''01 Jan 0001'' (Some (1, 1, 1)), cpld_row ''0.8'' [] None])) \<noteq> None"
proof -
  let ?rows = "[cpld_row ''1.0'' ''n/a'' None, cpld_row ''1.2'' ''10 Jan 2024'' (Some (2024, 1, 10)),
         cpld_row ''0.9'' ''01 Jan 0001'' (Some (1, 1, 1)), cpld_row ''0.8'' [] None]"
  have s: "py_sort_reverse release_key ?rows
     = [cpld_row ''1.2'' ''10 Jan 2024'' (Some (2024, 1, 10)), cpld_row ''1.0'' ''n/a'' None,
        cpld_row ''0.9'' ''01 Jan 0001'' (Some (1, 1, 1)), cpld_row ''0.8'' [] None]"
    by code_simp
  have m: "date_min < (2024, 1, 10)" by (simp add: date_min_def)
  have "\<exists>a\<in>set ?rows. \<exists>d. ReleaseDate a = Some d \<and> date_min < d"
    using m by (simp add: cpld_row_def)
  with dated_row_outranks_dateless [of ?rows]
  have "ReleaseDate (hd (py_sort_reverse release_key ?rows)) \<noteq> None" by blast
  with s m show ?thesis by blast
qed

text \<open>
  The claim as stated fails for a row dated exactly 1 January of year 1: it ties with
  a row that has no parsed date, the stable sort keeps the order of appearance, and
  the row without a date stays the candidate.
\<close>

theorem dateless_row_ties_with_minimal_date:
  "cpld_rows_of (driver_list [cpld_entry ''1.0'' ''n/a'', cpld_entry ''0.9'' ''01 Jan 0001''])
     = Inr [cpld_row ''1.0'' ''n/a'' None, cpld_row ''0.9'' ''01 Jan 0001'' (Some (1, 1, 1))]
   \<and> py_sort_reverse release_key
        [cpld_row ''1.0'' ''n/a'' None, cpld_row ''0.9'' ''01 Jan 0001'' (Some (1, 1, 1))]
     = [cpld_row ''1.0'' ''n/a'' None, cpld_row ''0.9'' ''01 Jan 0001'' (Some (1, 1, 1))]
   \<and> ReleaseDate (hd (py_sort_reverse release_key
        [cpld_row ''1.0'' ''n/a'' None, cpld_row ''0.9'' ''01 Jan 0001'' (Some (1, 1, 1))])) = None"
  by code_simp

section \<open>The row normalizer and malformed input\<close>

lemma file_frmt_info_get_ok:
  "(\<exists>v. file_frmt_info_get kvs k = Inr v) \<longleftrightarrow> false_or_dict (dict_get kvs ''FileFrmtInfo'' PNone)"
  by (cases "dict_get kvs ''FileFrmtInfo'' PNone")
     (auto simp: file_frmt_info_get_def false_or_dict_def py_get_def py_or_def)

lemma file_frmt_info_get_cases:
  "file_frmt_info_get kvs k = Inl AttributeError \<or> (\<exists>v. file_frmt_info_get kvs k = Inr v)"
  by (cases "dict_get kvs ''FileFrmtInfo'' PNone")
     (auto simp: file_frmt_info_get_def py_get_def py_or_def)

lemma file_frmt_info_get_raises:
  "\<not> false_or_dict (dict_get kvs ''FileFrmtInfo'' PNone) \<Longrightarrow>
     file_frmt_info_get kvs k = Inl AttributeError"
  using file_frmt_info_get_ok [of kvs k] file_frmt_info_get_cases [of kvs k] by auto

lemma file_frmt_info_get_lookup:
  assumes "false_or_dict (dict_get kvs ''FileFrmtInfo'' PNone)"
  shows "file_frmt_info_get kvs k =
           Inr (lookup (lookup (PDict kvs) ''FileFrmtInfo'' PNone) k PNone)"
proof -
  have l: "lookup (PDict kvs) ''FileFrmtInfo'' PNone = dict_get kvs ''FileFrmtInfo'' PNone"
    by (simp add: lookup_def dict_get_def)
  show ?thesis
    unfolding l using assms
    by (cases "dict_get kvs ''FileFrmtInfo'' PNone")
       (auto simp: file_frmt_info_get_def false_or_dict_def py_get_def py_or_def lookup_def
          dict_get_def)
qed

lemma normalize_row_normalized:
  assumes "row_shape_ok d"
  shows "normalize_row d = Inr (normalized d)"
proof -
  from assms obtain kvs where
    d: "d = PDict kvs" and f: "false_or_dict (dict_get kvs ''FileFrmtInfo'' PNone)"
    by (cases d) (auto simp: row_shape_ok_def)
  have g: "dict_get kvs k dflt = lookup (PDict kvs) k dflt" for k dflt
    by (simp add: lookup_def dict_get_def)
  have i: "driver_id_of kvs =
            Inr (first_true (lookup d ''DriverId'' PNone) (lookup d ''DriverIdEN'' PNone)
                   (lookup (lookup d ''FileFrmtInfo'' PNone) ''FileId'' PNone))"
    unfolding d by (simp add: driver_id_of_def first_true_def file_frmt_info_get_lookup [OF f] g)
  show ?thesis
    unfolding normalize_row_def d pyval.case Let_def i [unfolded d] file_frmt_info_get_lookup [OF f]
    by (simp add: normalized_def g)
qed

lemma normalize_row_raises:
  assumes "\<not> row_shape_ok d"
  shows "normalize_row d = Inl AttributeError"
proof (cases d)
  case (PDict kvs)
  with assms have "\<not> false_or_dict (dict_get kvs ''FileFrmtInfo'' PNone)"
    by (simp add: row_shape_ok_def)
  from file_frmt_info_get_raises [OF this] PDict show ?thesis
    by (simp add: normalize_row_def driver_id_of_def Let_def split: sum.splits)
qed (simp_all add: normalize_row_def)

lemma normalize_row_ok_iff: "(\<exists>row. normalize_row d = Inr row) \<longleftrightarrow> row_shape_ok d"
proof (cases "row_shape_ok d")
  case True
  with normalize_row_normalized [of d] show ?thesis by simp
next
  case False
  with normalize_row_raises [of d] show ?thesis by simp
qed

lemma collect_rows_normalized:
  "list_all row_shape_ok ds \<Longrightarrow> collect_rows ds = Inr (map normalized ds)"
  by (induction ds) (simp_all add: normalize_row_normalized)

lemma collect_rows_raises:
  "\<not> list_all row_shape_ok ds \<Longrightarrow> collect_rows ds = Inl AttributeError"
proof (induction ds)
  case Nil
  then show ?case by simp
next
  case (Cons d ds)
  show ?case
  proof (cases "row_shape_ok d")
    case True
    with Cons show ?thesis by (simp add: normalize_row_normalized)
  next
    case False
    then show ?thesis by (simp add: normalize_row_raises)
  qed
qed

lemma collect_rows_strs:
  "collect_rows (map PStr ks) = (if ks = [] then Inr [] else Inl AttributeError)"
  by (cases ks) (simp_all add: normalize_row_def)

lemma parse_rows_driver_list:
  assumes "map_of kvs ''DriverListData'' = Some lst" and "kvs \<noteq> []"
  shows "parse_rows (PDict kvs) =
           (case py_iter lst of Inl e \<Rightarrow> Inl e | Inr ds \<Rightarrow> collect_rows ds)"
  using assms by (simp add: parse_rows_def py_contains_def py_getitem_def)

lemma parse_rows_normalizable:
  assumes "normalizable j"
  shows "parse_rows j = Inr (map normalized (driver_entries j))"
proof (cases "py_truthy j")
  case False
  then have "driver_entries j = []"
    by (cases j) (auto simp: driver_entries_def)
  with False show ?thesis by (simp add: parse_rows_def)
next
  case True
  show ?thesis
  proof (cases j)
    case (PDict kvs)
    with True have ne: "kvs \<noteq> []" by simp
    show ?thesis
    proof (cases "map_of kvs ''DriverListData''")
      case None
      with PDict True show ?thesis
        by (simp add: parse_rows_def py_contains_def driver_entries_def)
    next
      case (Some lst)
      note p = parse_rows_driver_list [OF Some ne]
      show ?thesis
      proof (cases lst)
        case (PList ds)
        with assms True PDict Some have "list_all row_shape_ok ds"
          by (simp add: normalizable_def)
        with PList PDict Some p show ?thesis
          by (simp add: py_iter_def collect_rows_normalized driver_entries_def)
      next
        case (PDict entries)
        with assms True \<open>j = PDict kvs\<close> Some have "entries = []"
          by (simp add: normalizable_def)
        with PDict \<open>j = PDict kvs\<close> Some p show ?thesis
          by (simp add: py_iter_def driver_entries_def)
      next
        case (PStr s)
        with assms True PDict Some have "s = []"
          by (simp add: normalizable_def)
        with PStr PDict Some p show ?thesis
          by (simp add: py_iter_def driver_entries_def)
      qed (insert assms True PDict Some, simp_all add: normalizable_def)
    qed
  next
    case (PList xs)
    with assms True show ?thesis
      by (simp add: normalizable_def parse_rows_def py_contains_def driver_entries_def)
  next
    case (PStr s)
    with assms True show ?thesis
      by (simp add: normalizable_def parse_rows_def py_contains_def driver_entries_def)
  qed (insert assms True, simp_all add: normalizable_def)
qed

lemma parse_rows_raises:
  assumes "\<not> normalizable j"
  shows "parse_rows j = Inl TypeError \<or> parse_rows j = Inl AttributeError"
proof -
  from assms have True: "py_truthy j" by (auto simp: normalizable_def)
  show ?thesis
  proof (cases j)
    case (PDict kvs)
    with True have ne: "kvs \<noteq> []" by simp
    from assms PDict obtain lst where Some: "map_of kvs ''DriverListData'' = Some lst"
      by (cases "map_of kvs ''DriverListData''") (auto simp: normalizable_def)
    note p = parse_rows_driver_list [OF Some ne]
    show ?thesis
    proof (cases lst)
      case (PList ds)
      with assms PDict Some have "\<not> list_all row_shape_ok ds"
        by (simp add: normalizable_def)
      with PList PDict p show ?thesis
        by (simp add: py_iter_def collect_rows_raises)
    next
      case (PDict entries)
      with assms \<open>j = PDict kvs\<close> Some have "entries \<noteq> []"
        by (simp add: normalizable_def)
      with PDict \<open>j = PDict kvs\<close> p show ?thesis
        by (simp add: py_iter_def collect_rows_strs)
    next
      case (PStr s)
      have "map (\<lambda>c. PStr [c]) s = map PStr (map (\<lambda>c. [c]) s)" by simp
      moreover from PStr assms PDict Some have "s \<noteq> []"
        by (simp add: normalizable_def)
      ultimately show ?thesis using PStr PDict p
        by (simp add: py_iter_def collect_rows_strs del: map_map)
    qed (insert PDict p, simp_all add: py_iter_def)
  next
    case (PList xs)
    with assms show ?thesis
      by (simp add: normalizable_def parse_rows_def py_contains_def py_getitem_def)
  next
    case (PStr s)
    with assms show ?thesis
      by (simp add: normalizable_def parse_rows_def py_contains_def py_getitem_def)
  qed (insert True, simp_all add: parse_rows_def py_contains_def)
qed

text \<open>
  Claim C8, as amended. The row normalizer returns exactly on the responses described
  by \<open>normalizable\<close>, and on every other response it raises \<open>TypeError\<close> or
  \<open>AttributeError\<close>. Where it returns, the rows are the normalized rows of the entries of
  the driver list, one per entry and in their order, each lookup giving the absent or
  default value where a field is missing, whatever the types of the fields are. An
  entry is normalized exactly when it is a dict whose \<open>FileFrmtInfo\<close> is missing, false
  or a dict; any other entry raises \<open>AttributeError\<close>.
\<close>

theorem parse_rows_total_on_well_shaped:
  "((\<exists>rows. parse_rows j = Inr rows) \<longleftrightarrow> normalizable j)
   \<and> (normalizable j \<longrightarrow> parse_rows j = Inr (map normalized (driver_entries j)))
   \<and> (\<not> normalizable j \<longrightarrow> parse_rows j = Inl TypeError \<or> parse_rows j = Inl AttributeError)
   \<and> ((\<exists>row. normalize_row d = Inr row) \<longleftrightarrow> row_shape_ok d)
   \<and> (row_shape_ok d \<longrightarrow> normalize_row d = Inr (normalized d))
   \<and> (\<not> row_shape_ok d \<longrightarrow> normalize_row d = Inl AttributeError)"
proof -
  have "(\<exists>rows. parse_rows j = Inr rows) \<longleftrightarrow> normalizable j"
  proof (cases "normalizable j")
    case True
    with parse_rows_normalizable [of j] show ?thesis by simp
  next
    case False
    with parse_rows_raises [of j] show ?thesis by auto
  qed
  with parse_rows_normalizable [of j] parse_rows_raises [of j] normalize_row_ok_iff [of d]
    normalize_row_normalized [of d] normalize_row_raises [of d]
  show ?thesis by blast
qed

theorem parse_rows_total_on_well_shaped_witness:
  "normalizable (driver_list [PDict [(''ReleaseDate'', PInt 5), (''DriverIdEN'', PStr ''X1'')]])
   \<and> parse_rows (driver_list [PDict [(''ReleaseDate'', PInt 5), (''DriverIdEN'', PStr ''X1'')]])
     = Inr [\<lparr> ReleaseDate = None, ReleaseDateRaw = PInt 5, LastUpdate = None,
               UpdateStatus = PNone, Version = PNone, Name = PStr [], Category = PStr [],
               DriverId = PStr ''X1'', DownloadUrl = PNone \<rparr>]"
proof -
  let ?j = "driver_list [PDict [(''ReleaseDate'', PInt 5), (''DriverIdEN'', PStr ''X1'')]]"
  have ok: "normalizable ?j"
    by (simp add: normalizable_def driver_list_def row_shape_ok_def false_or_dict_def dict_get_def)
  have n: "map normalized (driver_entries ?j)
     = [\<lparr> ReleaseDate = None, ReleaseDateRaw = PInt 5, LastUpdate = None,
               UpdateStatus = PNone, Version = PNone, Name = PStr [], Category = PStr [],
               DriverId = PStr ''X1'', DownloadUrl = PNone \<rparr>]"
    by (simp add: driver_entries_def driver_list_def normalized_def lookup_def first_true_def
        parse_date_def strptime_def)
  from parse_rows_total_on_well_shaped [of ?j PNone] ok
  have "parse_rows ?j = Inr (map normalized (driver_entries ?j))" by blast
  with ok n show ?thesis by simp
qed

text \<open>
  The claim as stated fails on ill-typed input: a \<open>FileFrmtInfo\<close> that is a non-empty
  str has no \<open>get\<close> method, and a \<open>DriverListData\<close> that is \<open>None\<close> cannot be iterated.
\<close>

theorem parse_rows_raises_on_ill_typed_field:
  "normalize_row (PDict [(''DriverName'', PStr ''System CPLD''), (''FileFrmtInfo'', PStr ''n/a'')])
     = Inl AttributeError
   \<and> parse_rows (driver_list [PDict [(''DriverName'', PStr ''System CPLD''),
                                      (''FileFrmtInfo'', PStr ''n/a'')]])
     = Inl AttributeError
   \<and> parse_rows (PDict [(''DriverListData'', PNone)]) = Inl TypeError"
  by code_simp

text \<open>Where nothing is there to iterate over, an ill-typed \<open>DriverListData\<close> or
  response gives no rows and no exception.\<close>

lemma parse_rows_nothing_to_iterate:
  "parse_rows (PDict [(''DriverListData'', PStr [])]) = Inr []"
  "parse_rows (PDict [(''DriverListData'', PDict [])]) = Inr []"
  "parse_rows (PList [PInt 1]) = Inr []"
  "parse_rows (PStr ''error'') = Inr []"
  by code_simp+

section \<open>The API client when every attempt fails\<close>

lemma float_overflow_large: "2 ^ 1000 < FLOAT_OVERFLOW"
  by (simp add: FLOAT_OVERFLOW_def)

lemma sleep_for_fits:
  assumes "sleeps_fit backoff retries" and "1 \<le> a" and "a \<le> retries"
  shows "\<exists>r. \<forall>w. sleep_for backoff a w = Inr (emit (Sleep r) w)"
proof -
  from assms(1) obtain b where
    b: "backoff = Finite b" "0 \<le> b" "b * of_int retries \<le> 9223372036" "retries \<le> 2 ^ 1000"
    by (cases backoff) (auto simp: sleeps_fit_def)
  have "(of_int a :: real) \<le> of_int retries" using assms(3) by simp
  also have "\<dots> \<le> of_int (2 ^ 1000)" using b(4) by (simp only: of_int_le_iff)
  finally have a_le: "(of_int a :: real) \<le> 2 ^ 1000" by simp
  have a_nn: "0 \<le> (of_int a :: real)" using assms(2) by simp
  have a_ok: "\<not> FLOAT_OVERFLOW \<le> \<bar>of_int a :: real\<bar>"
    using a_le a_nn float_overflow_large by simp
  have nn: "0 \<le> b * of_int a" using b(2) a_nn by simp
  have "b * of_int a \<le> b * of_int retries"
    using b(2) assms(3) by (simp add: mult_left_mono)
  with b(3) have le: "b * of_int a \<le> 9223372036" by simp
  have "(9223372036 :: real) < 2 ^ 1000" by simp
  with le float_overflow_large have p_ok: "\<not> FLOAT_OVERFLOW \<le> b * of_int a" by simp
  have n_ok: "\<not> b * of_int a \<le> - FLOAT_OVERFLOW"
    using nn float_overflow_large by simp
  have "b * of_int a * 10 ^ 9 \<le> 9223372036 * 10 ^ 9" using le by simp
  also have "\<dots> < (2::real) ^ 63" by simp
  finally have s_ok: "\<not> 2 ^ 63 \<le> b * of_int a * 10 ^ 9" by simp
  have "sleep_for backoff a w = Inr (emit (Sleep (b * of_int a)) w)" for w
    using a_ok p_ok n_ok s_ok nn
    by (simp add: sleep_for_def float_times_int_def py_sleep_def b(1) not_less)
  then show ?thesis by blast
qed

lemma attempt_once_fail:
  assumes "\<forall>w. sleep_for backoff attempt w = Inr (emit (Sleep r) w)"
    and "\<not> http_ok (net (requests_sent w) (country, productcode, oscode))"
  shows "\<exists>w1 evs. attempt_once net productcode oscode country backoff attempt last_exc w =
           (Continue (case net (requests_sent w) (country, productcode, oscode) of
                        Raises e \<Rightarrow> Some (Of_request e) | Response s c b \<Rightarrow> last_exc), w1)
         \<and> requests_sent w1 = Suc (requests_sent w)
         \<and> trace w1 = trace w @ evs
         \<and> \<not> list_ex is_warning evs"
proof (cases "net (requests_sent w) (country, productcode, oscode)")
  case (Raises e)
  then show ?thesis using assms(1)
    by (simp add: attempt_once_def on_exception_def emit_def is_warning_def)
next
  case (Response status content_type body)
  with assms(2) show ?thesis using assms(1)
    by (auto simp: attempt_once_def sleep_in_try_def emit_def is_warning_def
        http_ok_def Let_def)
qed

lemma retry_loop_fail:
  assumes "\<forall>a\<in>set attempts. \<exists>r. \<forall>w. sleep_for backoff a w = Inr (emit (Sleep r) w)"
    and "\<forall>k<length attempts. \<not> http_ok (net (requests_sent w + k) (country, productcode, oscode))"
  shows "\<exists>w2 evs last1.
           retry_loop net productcode oscode country backoff attempts last_exc w =
             (Inr (None, last1), w2)
         \<and> requests_sent w2 = requests_sent w + length attempts
         \<and> trace w2 = trace w @ evs
         \<and> \<not> list_ex is_warning evs
         \<and> (last1 \<noteq> None \<longleftrightarrow>
              last_exc \<noteq> None \<or>
              (\<exists>k<length attempts. raised (net (requests_sent w + k) (country, productcode, oscode))))"
  using assms
proof (induction attempts arbitrary: last_exc w)
  case Nil
  then show ?case by simp
next
  case (Cons attempt rest)
  let ?req = "(country, productcode, oscode)"
  let ?out = "net (requests_sent w) ?req"
  let ?l1 = "case ?out of Raises e \<Rightarrow> Some (Of_request e) | Response s c b \<Rightarrow> last_exc"
  from Cons.prems obtain r where
    a: "\<forall>w. sleep_for backoff attempt w = Inr (emit (Sleep r) w)" by auto
  from Cons.prems have f0: "\<not> http_ok ?out" by auto
  from attempt_once_fail [where net = net and w = w and last_exc = last_exc, OF a f0]
  obtain w1 evs where
    step: "attempt_once net productcode oscode country backoff attempt last_exc w = (Continue ?l1, w1)"
    and rs: "requests_sent w1 = Suc (requests_sent w)"
    and tr: "trace w1 = trace w @ evs"
    and nw: "\<not> list_ex is_warning evs" by blast
  have r1: "\<forall>a\<in>set rest. \<exists>r. \<forall>w. sleep_for backoff a w = Inr (emit (Sleep r) w)"
    using Cons.prems(1) by simp
  have r2: "\<forall>k<length rest. \<not> http_ok (net (requests_sent w1 + k) ?req)"
    using Cons.prems(2) rs by auto
  from Cons.IH [where w = w1 and last_exc = ?l1, OF r1 r2] obtain w2 evs2 last1 where
    rec: "retry_loop net productcode oscode country backoff rest ?l1 w1 = (Inr (None, last1), w2)"
    and rs2: "requests_sent w2 = requests_sent w1 + length rest"
    and tr2: "trace w2 = trace w1 @ evs2"
    and nw2: "\<not> list_ex is_warning evs2"
    and l: "last1 \<noteq> None \<longleftrightarrow>
              ?l1 \<noteq> None \<or> (\<exists>k<length rest. raised (net (requests_sent w1 + k) ?req))"
    by blast
  have eq: "retry_loop net productcode oscode country backoff (attempt # rest) last_exc w =
             (Inr (None, last1), w2)"
    using step rec by simp
  have l1: "?l1 \<noteq> None \<longleftrightarrow> last_exc \<noteq> None \<or> raised ?out"
    by (cases ?out) (simp_all add: raised_def)
  have ex: "(\<exists>k<length (attempt # rest). raised (net (requests_sent w + k) ?req)) \<longleftrightarrow>
            raised ?out \<or> (\<exists>k<length rest. raised (net (requests_sent w1 + k) ?req))"
    using rs by (auto simp: less_Suc_eq_0_disj)
  have "requests_sent w2 = requests_sent w + length (attempt # rest)"
    using rs rs2 by simp
  moreover have "trace w2 = trace w @ (evs @ evs2)" using tr tr2 by simp
  moreover have "\<not> list_ex is_warning (evs @ evs2)" using nw nw2 by simp
  moreover have "last1 \<noteq> None \<longleftrightarrow> last_exc \<noteq> None \<or>
      (\<exists>k<length (attempt # rest). raised (net (requests_sent w + k) ?req))"
    using l l1 ex by blast
  ultimately show ?case using eq by blast
qed

text \<open>
  Claim C5, as amended. For every product code and OS code, when all retry attempts
  are exhausted without an HTTP 200 response with a JSON content type, and every wait
  of the run is a length \<open>sleep\<close> accepts (\<open>sleeps_fit\<close>, as with the default backoff 2.0
  and the default 3 retries), the API client returns an absent result instead of
  raising, after one request per attempt. It emits the warning that names the product
  code and the OS code exactly when at least one attempt ended in an exception; it
  emits no other warning.
\<close>

theorem call_dell_api_exhausted:
  assumes "sleeps_fit backoff retries"
    and "\<forall>k<nat retries. \<not> http_ok (net (requests_sent w + k) (country, productcode, oscode))"
  shows "\<exists>w1. call_dell_api net productcode oscode country retries backoff w = (Inr PNone, w1)
           \<and> requests_sent w1 = requests_sent w + nat retries
           \<and> ((\<exists>e. Warning productcode oscode e \<in> set (new_events w w1)) \<longleftrightarrow>
                 (\<exists>k<nat retries. raised (net (requests_sent w + k) (country, productcode, oscode))))
           \<and> list_all (\<lambda>ev. is_warning ev \<longrightarrow> (\<exists>e. ev = Warning productcode oscode e))
                (new_events w w1)"
proof -
  have len: "length [1..retries] = nat retries" by simp
  have pos: "\<forall>a\<in>set [1..retries]. \<exists>r. \<forall>w. sleep_for backoff a w = Inr (emit (Sleep r) w)"
    using sleep_for_fits [OF assms(1)] by simp
  have fl: "\<forall>k<length [1..retries].
      \<not> http_ok (net (requests_sent w + k) (country, productcode, oscode))"
    using assms(2) len by simp
  from retry_loop_fail [where net = net and w = w and last_exc = None, OF pos fl] len
  obtain w2 evs last1 where
    loop: "retry_loop net productcode oscode country backoff [1..retries] None w =
             (Inr (None, last1), w2)"
    and rs: "requests_sent w2 = requests_sent w + nat retries"
    and tr: "trace w2 = trace w @ evs"
    and nw: "\<not> list_ex is_warning evs"
    and l: "last1 \<noteq> None \<longleftrightarrow>
              (\<exists>k<nat retries. raised (net (requests_sent w + k) (country, productcode, oscode)))"
    by auto
  have nw': "Warning productcode oscode x \<notin> set evs" for x
    using nw by (auto simp: list_ex_iff is_warning_def)
  have nw'': "\<forall>ev\<in>set evs. \<not> is_warning ev"
    using nw by (auto simp: list_ex_iff)
  show ?thesis
  proof (cases last1)
    case None
    with loop l rs tr nw' nw'' show ?thesis
      by (auto simp: call_dell_api_def new_events_def list_all_iff)
  next
    case (Some x)
    with loop l rs tr nw' nw'' show ?thesis
      by (auto simp: call_dell_api_def new_events_def emit_def list_all_iff is_warning_def)
  qed
qed

lemma sleep_for_default:
  "sleep_for (Finite 2) 1 w = Inr (emit (Sleep 2) w)"
  "sleep_for (Finite 2) 2 w = Inr (emit (Sleep 4) w)"
  "sleep_for (Finite 2) 3 w = Inr (emit (Sleep 6) w)"
  by (simp_all add: sleep_for_def float_times_int_def py_sleep_def FLOAT_OVERFLOW_def)

theorem call_dell_api_exhausted_witness:
  "sleeps_fit (Finite 2) 3
   \<and> call_dell_api failing_net ''R750'' ''NAA'' COUNTRY 3 (Finite 2) world0 =
     (Inr PNone,
      \<lparr> requests_sent = 3,
        trace = [Debug_get ''R750'' ''NAA'' 503, Warn_unexpected 503 ''text/html'', Sleep 2,
                 Error_exception (Of_request ''connection timed out''), Sleep 4,
                 Debug_get ''R750'' ''NAA'' 503, Warn_unexpected 503 ''text/html'', Sleep 6,
                 Warning ''R750'' ''NAA'' (Of_request ''connection timed out'')] \<rparr>)
   \<and> (\<exists>e. Warning ''R750'' ''NAA'' e \<in> set (new_events world0
        (snd (call_dell_api failing_net ''R750'' ''NAA'' COUNTRY 3 (Finite 2) world0))))"
proof -
  have s: "sleeps_fit (Finite 2) 3" by (simp add: sleeps_fit_def)
  have h: "\<forall>k<nat 3. \<not> http_ok (failing_net (requests_sent world0 + k) (COUNTRY, ''R750'', ''NAA''))"
    by (simp add: failing_net_def http_ok_def)
  have r: "\<exists>k<nat 3. raised (failing_net (requests_sent world0 + k) (COUNTRY, ''R750'', ''NAA''))"
    by (rule exI [of _ 1]) (simp add: failing_net_def raised_def world0_def)
  from call_dell_api_exhausted [where net = failing_net and w = world0 and retries = 3
         and backoff = "Finite 2" and country = COUNTRY and productcode = "''R750''"
         and oscode = "''NAA''", OF s h] r
  have "\<exists>e. Warning ''R750'' ''NAA'' e \<in> set (new_events world0
        (snd (call_dell_api failing_net ''R750'' ''NAA'' COUNTRY 3 (Finite 2) world0)))"
    by auto
  moreover have "call_dell_api failing_net ''R750'' ''NAA'' COUNTRY 3 (Finite 2) world0 =
     (Inr PNone,
      \<lparr> requests_sent = 3,
        trace = [Debug_get ''R750'' ''NAA'' 503, Warn_unexpected 503 ''text/html'', Sleep 2,
                 Error_exception (Of_request ''connection timed out''), Sleep 4,
                 Debug_get ''R750'' ''NAA'' 503, Warn_unexpected 503 ''text/html'', Sleep 6,
                 Warning ''R750'' ''NAA'' (Of_request ''connection timed out'')] \<rparr>)"
    by (simp add: call_dell_api_def upto.simps attempt_once_def sleep_in_try_def on_exception_def
        sleep_for_default emit_def failing_net_def world0_def)
  ultimately show ?thesis using s by blast
qed

text \<open>
  The claim as stated fails when no attempt raises: after three answers with status
  204 the client has printed its per-attempt lines and slept, and returns \<open>None\<close>
  without any warning, because \<open>if last_exc:\<close> guards the warning.
\<close>

theorem call_dell_api_exhausted_without_warning:
  "call_dell_api example_net ''R750'' ''NAA'' COUNTRY 3 (Finite 2) world0 =
     (Inr PNone,
      \<lparr> requests_sent = 3,
        trace = [Debug_get ''R750'' ''NAA'' 204, Warn_no_content, Sleep 2,
                 Debug_get ''R750'' ''NAA'' 204, Warn_no_content, Sleep 4,
                 Debug_get ''R750'' ''NAA'' 204, Warn_no_content, Sleep 6] \<rparr>)"
  by (simp add: call_dell_api_def upto.simps attempt_once_def sleep_in_try_def on_exception_def
        sleep_for_default emit_def example_net_def world0_def)

text \<open>A wait that \<open>sleep\<close> refuses makes the client raise, out of the exception
  handler: a negative backoff, one beyond the limit of \<open>sleep\<close>, an infinite one and
  not-a-number.\<close>

lemma call_dell_api_refused_sleep_raises:
  "fst (call_dell_api (\<lambda>n req. Response 204 None (Inl [])) ''R750'' ''NAA'' ''en-us'' 3
         (Finite (- 1)) \<lparr> requests_sent = 0, trace = [] \<rparr>) = Inl ValueError"
  "fst (call_dell_api (\<lambda>n req. Response 204 None (Inl [])) ''R750'' ''NAA'' ''en-us'' 3
         (Finite 10000000000) \<lparr> requests_sent = 0, trace = [] \<rparr>) = Inl OverflowError"
  "fst (call_dell_api (\<lambda>n req. Response 204 None (Inl [])) ''R750'' ''NAA'' ''en-us'' 3
         PosInf \<lparr> requests_sent = 0, trace = [] \<rparr>) = Inl OverflowError"
  "fst (call_dell_api (\<lambda>n req. Response 204 None (Inl [])) ''R750'' ''NAA'' ''en-us'' 3
         NaN \<lparr> requests_sent = 0, trace = [] \<rparr>) = Inl ValueError"
  by (simp_all add: call_dell_api_def upto.simps attempt_once_def sleep_in_try_def
        on_exception_def sleep_for_def float_times_int_def py_sleep_def FLOAT_OVERFLOW_def emit_def)

section \<open>The snapshot writer\<close>

lemma mkdir_parents_existing_dir:
  "node_at fs q = Some Dir \<Longrightarrow> mkdir_parents fs q = Inr fs"
  by (subst mkdir_parents.simps) (simp add: os_mkdir_def)

lemma mkdir_exist_ok_new:
  "node_at fs q = None \<Longrightarrow> node_at fs (butlast q) = Some Dir \<Longrightarrow>
     mkdir_exist_ok fs q = Inr (fs(q \<mapsto> Dir))"
  by (simp add: mkdir_exist_ok_def os_mkdir_def)

lemma node_at_upd: "q \<noteq> [] \<Longrightarrow> node_at (fs(q \<mapsto> n)) r = (if r = q then Some n else node_at fs r)"
  by (auto simp: node_at_def)

lemma mkdir_parents_props:
  assumes "no_file_on_path fs q"
  shows "\<exists>fs1. mkdir_parents fs q = Inr fs1
           \<and> node_at fs1 q = Some Dir
           \<and> (\<forall>r. \<not> prefix r q \<longrightarrow> fs1 r = fs r)
           \<and> (\<forall>r. node_at fs r \<noteq> None \<longrightarrow> node_at fs1 r = node_at fs r)"
  using assms
proof (induction q arbitrary: fs rule: rev_induct)
  case Nil
  have "mkdir_parents fs [] = Inr fs"
    by (rule mkdir_parents_existing_dir) (simp add: node_at_def)
  then show ?case by (simp add: node_at_def)
next
  case (snoc c q)
  let ?p = "q @ [c]"
  have nf: "\<not> is_file (node_at fs ?p)" and nfq: "no_file_on_path fs q"
    using snoc.prems by (auto simp: no_file_on_path_def)
  show ?case
  proof (cases "node_at fs ?p")
    case (Some n)
    with nf have d: "node_at fs ?p = Some Dir" by (cases n) (auto simp: is_file_def)
    from mkdir_parents_existing_dir [OF d] d show ?thesis by simp
  next
    case None
    from snoc.IH [OF nfq] obtain fs1 where
      m: "mkdir_parents fs q = Inr fs1" and dq: "node_at fs1 q = Some Dir"
      and same: "\<forall>r. \<not> prefix r q \<longrightarrow> fs1 r = fs r"
      and keep: "\<forall>r. node_at fs r \<noteq> None \<longrightarrow> node_at fs1 r = node_at fs r"
      by blast
    have np: "\<not> prefix ?p q" by (auto simp: prefix_def)
    with same None have n1: "node_at fs1 ?p = None" by (simp add: node_at_def)
    have mk: "mkdir_exist_ok fs1 ?p = Inr (fs1(?p \<mapsto> Dir))"
      using mkdir_exist_ok_new [of fs1 ?p] n1 dq by simp
    have res: "mkdir_parents fs ?p = Inr (fs1(?p \<mapsto> Dir))"
    proof (cases "node_at fs q")
      case None
      with \<open>node_at fs ?p = None\<close> m mk show ?thesis
        by (subst mkdir_parents.simps) (simp add: os_mkdir_def)
    next
      case (Some n)
      with nfq have dq0: "node_at fs q = Some Dir"
        by (cases n) (auto simp: no_file_on_path_def is_file_def)
      then have "fs1 = fs" using m mkdir_parents_existing_dir [OF dq0] by simp
      with \<open>node_at fs ?p = None\<close> dq0 show ?thesis
        by (subst mkdir_parents.simps) (simp add: os_mkdir_def)
    qed
    have a: "node_at (fs1(?p \<mapsto> Dir)) ?p = Some Dir" by (simp add: node_at_upd)
    have b: "\<forall>r. \<not> prefix r ?p \<longrightarrow> (fs1(?p \<mapsto> Dir)) r = fs r"
      using same by simp
    have c: "\<forall>r. node_at fs r \<noteq> None \<longrightarrow> node_at (fs1(?p \<mapsto> Dir)) r = node_at fs r"
      using keep None by (auto simp: node_at_upd)
    from res a b c show ?thesis by blast
  qed
qed

lemma universal_newlines_id: "13 \<notin> set s \<Longrightarrow> universal_newlines s = s"
  by (induction s rule: universal_newlines.induct) auto

lemma encodable_universal_newlines: "encodable s \<Longrightarrow> encodable (universal_newlines s)"
  by (induction s rule: universal_newlines.induct) (auto simp: encodable_def is_scalar_def)

lemma not_prefix_butlast: "p \<noteq> [] \<Longrightarrow> \<not> prefix p (butlast p)"
  by (metis length_butlast prefix_length_le diff_less length_greater_0_conv less_one not_less)

lemma encodable_Nil: "encodable []"
  by (simp add: encodable_def)

lemma encodable_old_text: "holds_text fs p \<Longrightarrow> encodable (old_text fs p)"
  by (auto simp: holds_text_def old_text_def encodable_universal_newlines encodable_Nil
      split: option.splits node.splits)

lemma write_if_changed_after_mkdir:
  assumes m: "mkdir_parents fs (butlast p) = Inr fs1"
    and tgt: "node_at fs1 p \<noteq> Some Dir"
    and par: "node_at fs1 (butlast p) = Some Dir"
    and ht: "holds_text fs1 p"
    and enc: "encodable content"
  shows "write_if_changed sha256 p content fs =
           (if sha256 (old_text fs1 p) \<noteq> sha256 content
            then (Inr True, fs1(p \<mapsto> File (Some content))) else (Inr False, fs1))"
proof (cases "node_at fs1 p")
  case None
  with m par enc tgt show ?thesis
    by (simp add: write_if_changed_def old_text_def write_text_def encodable_def)
next
  case (Some n)
  with tgt ht obtain stored where s: "node_at fs1 p = Some (File (Some stored))"
    by (cases n) (auto simp: holds_text_def split: option.splits)
  from encodable_old_text [OF ht] s have "encodable (universal_newlines stored)"
    by (simp add: old_text_def)
  with s m par enc show ?thesis
    by (simp add: write_if_changed_def old_text_def write_text_def read_text_def)
qed

lemma no_file_on_path_empty: "no_file_on_path Map.empty q"
  by (simp add: no_file_on_path_def is_file_def node_at_def)

text \<open>
  Claim C7, as amended. For every target path that is no directory and whose parent
  directories exist or can be created, whose file, if it exists, holds UTF-8 text, and
  for every content string that can be encoded as UTF-8 (it has no lone surrogate) and
  has no carriage return (as the JSON text the program writes), two calls of the
  snapshot writer with that content perform at most one write: the first call writes
  and reports a change exactly when the digest of the content differs from the digest
  of the text the file held (a missing file counting as the empty text); the second
  call reports no change and leaves the file system as the first call left it.
\<close>

theorem write_if_changed_twice:
  assumes "no_file_on_path fs (butlast p)"
    and "node_at fs p \<noteq> Some Dir"
    and "holds_text fs p"
    and "encodable content"
    and "13 \<notin> set content"
  shows "\<exists>changed fs1.
           write_if_changed sha256 p content fs = (Inr changed, fs1)
           \<and> (changed \<longleftrightarrow> sha256 (old_text fs p) \<noteq> sha256 content)
           \<and> node_at fs1 p = (if changed then Some (File (Some content)) else node_at fs p)
           \<and> write_if_changed sha256 p content fs1 = (Inr False, fs1)"
proof -
  have p: "p \<noteq> []" using assms(2) by (auto simp: node_at_def)
  from mkdir_parents_props [OF assms(1)] obtain fs0 where
    m: "mkdir_parents fs (butlast p) = Inr fs0"
    and par: "node_at fs0 (butlast p) = Some Dir"
    and same: "\<forall>r. \<not> prefix r (butlast p) \<longrightarrow> fs0 r = fs r"
    by blast
  have tgt: "node_at fs0 p = node_at fs p"
    using same not_prefix_butlast [OF p] p by (simp add: node_at_def)
  have old: "old_text fs0 p = old_text fs p" using tgt by (simp add: old_text_def)
  have ht: "holds_text fs0 p" using tgt assms(3) by (simp add: holds_text_def)
  have nd: "node_at fs0 p \<noteq> Some Dir" using tgt assms(2) by simp
  have first: "write_if_changed sha256 p content fs =
           (if sha256 (old_text fs p) \<noteq> sha256 content
            then (Inr True, fs0(p \<mapsto> File (Some content))) else (Inr False, fs0))"
    using write_if_changed_after_mkdir [OF m nd par ht assms(4), of sha256] old by simp
  show ?thesis
  proof (cases "sha256 (old_text fs p) \<noteq> sha256 content")
    case True
    let ?fs1 = "fs0(p \<mapsto> File (Some content))"
    have bp: "butlast p \<noteq> p" using p by (metis not_prefix_butlast prefix_order.order_refl)
    have par1: "node_at ?fs1 (butlast p) = Some Dir"
      using par bp p by (simp add: node_at_upd)
    have m1: "mkdir_parents ?fs1 (butlast p) = Inr ?fs1"
      by (rule mkdir_parents_existing_dir [OF par1])
    have t1: "node_at ?fs1 p = Some (File (Some content))" using p by (simp add: node_at_upd)
    have nd1: "node_at ?fs1 p \<noteq> Some Dir" using t1 by simp
    have ht1: "holds_text ?fs1 p" using t1 assms(4) by (simp add: holds_text_def)
    have o1: "old_text ?fs1 p = content"
      using t1 assms(5) by (simp add: old_text_def universal_newlines_id)
    have second: "write_if_changed sha256 p content ?fs1 = (Inr False, ?fs1)"
      using write_if_changed_after_mkdir [OF m1 nd1 par1 ht1 assms(4), of sha256] o1 by simp
    from first True t1 second show ?thesis
      by (intro exI [of _ True] exI [of _ ?fs1]) simp
  next
    case False
    have m1: "mkdir_parents fs0 (butlast p) = Inr fs0"
      by (rule mkdir_parents_existing_dir [OF par])
    have second: "write_if_changed sha256 p content fs0 = (Inr False, fs0)"
      using write_if_changed_after_mkdir [OF m1 nd par ht assms(4), of sha256] old False
      by simp
    from first False tgt second show ?thesis
      by (intro exI [of _ False] exI [of _ fs0]) simp
  qed
qed

lemma codes_braces: "codes ''{}'' = [123, 125]"
  by (simp add: codes_def)

theorem write_if_changed_twice_witness:
  "fst (write_if_changed plain_digest OUT_PATH (codes ''{}'') Map.empty) = Inr True
   \<and> node_at (snd (write_if_changed plain_digest OUT_PATH (codes ''{}'') Map.empty)) OUT_PATH
       = Some (File (Some (codes ''{}'')))
   \<and> write_if_changed plain_digest OUT_PATH (codes ''{}'')
        (snd (write_if_changed plain_digest OUT_PATH (codes ''{}'') Map.empty))
       = (Inr False, snd (write_if_changed plain_digest OUT_PATH (codes ''{}'') Map.empty))"
proof -
  have d: "node_at Map.empty OUT_PATH \<noteq> Some Dir" by (simp add: node_at_def OUT_PATH_def)
  have t: "holds_text Map.empty OUT_PATH" by (simp add: holds_text_def node_at_def OUT_PATH_def)
  have e: "encodable (codes ''{}'')" by (simp add: codes_braces encodable_def is_scalar_def)
  have c: "13 \<notin> set (codes ''{}'')" by (simp add: codes_braces)
  from write_if_changed_twice [OF no_file_on_path_empty d t e c, of plain_digest]
  obtain changed fs1 where
    r: "write_if_changed plain_digest OUT_PATH (codes ''{}'') Map.empty = (Inr changed, fs1)"
    and ch: "changed \<longleftrightarrow> plain_digest (old_text Map.empty OUT_PATH) \<noteq> plain_digest (codes ''{}'')"
    and n: "node_at fs1 OUT_PATH
              = (if changed then Some (File (Some (codes ''{}''))) else node_at Map.empty OUT_PATH)"
    and s: "write_if_changed plain_digest OUT_PATH (codes ''{}'') fs1 = (Inr False, fs1)"
    by blast
  from ch have "changed"
    by (simp add: plain_digest_def old_text_def node_at_def OUT_PATH_def codes_braces)
  with r n s show ?thesis by simp
qed

text \<open>
  The claim as stated fails where the first call has nothing to write: the file
  already holds the content, or the file is missing and the content is empty. Both
  calls then report no change and no write happens, whatever the hash function is.
\<close>

theorem write_if_changed_first_call_unchanged:
  "fst (write_if_changed plain_digest OUT_PATH (codes ''{}'') snapshot_present) = Inr False
   \<and> snd (write_if_changed plain_digest OUT_PATH (codes ''{}'') snapshot_present) = snapshot_present
   \<and> fst (write_if_changed plain_digest OUT_PATH [] Map.empty) = Inr False"
  by (simp add: write_if_changed_def mkdir_exist_ok_def os_mkdir_def node_at_def read_text_def
      write_text_def snapshot_present_def OUT_PATH_def plain_digest_def codes_braces
      encodable_def is_scalar_def)

lemma write_if_changed_unchanged_any_digest:
  "fst (write_if_changed sha256 [''docs'', ''cpld_latest.json''] [123, 125]
          [[''docs''] \<mapsto> Dir, [''docs'', ''cpld_latest.json''] \<mapsto> File (Some [123, 125])]) = Inr False
   \<and> fst (write_if_changed sha256 [''docs'', ''cpld_latest.json''] [] Map.empty) = Inr False"
  by (simp add: write_if_changed_def mkdir_exist_ok_def os_mkdir_def node_at_def read_text_def
      write_text_def encodable_def is_scalar_def)

text \<open>Text with a carriage return does not read back as it was written: the second
  call writes again.\<close>

lemma write_if_changed_carriage_return:
  "universal_newlines [97, 13, 10, 98, 13] = [97, 10, 98, 10]"
  "fst (write_if_changed plain_digest OUT_PATH [97, 13, 98]
         (snd (write_if_changed plain_digest OUT_PATH [97, 13, 98] Map.empty))) = Inr True"
  by (simp_all add: write_if_changed_def mkdir_exist_ok_def os_mkdir_def node_at_def read_text_def
      write_text_def encodable_def is_scalar_def OUT_PATH_def plain_digest_def)

text \<open>A file that is no valid UTF-8 makes the call raise when it is read, and a
  content with a lone surrogate when it is encoded; no file is written.\<close>

lemma write_if_changed_raises_on_encoding:
  "write_if_changed sha256 [''docs'', ''cpld_latest.json''] [123, 125]
     [[''docs''] \<mapsto> Dir, [''docs'', ''cpld_latest.json''] \<mapsto> File None]
   = (Inl UnicodeDecodeError,
      [[''docs''] \<mapsto> Dir, [''docs'', ''cpld_latest.json''] \<mapsto> File None])"
  "write_if_changed sha256 [''docs'', ''cpld_latest.json''] [0xD800] [[''docs''] \<mapsto> Dir]
   = (Inl UnicodeEncodeError, [[''docs''] \<mapsto> Dir])"
  by (simp_all add: write_if_changed_def mkdir_exist_ok_def os_mkdir_def node_at_def read_text_def
      write_text_def encodable_def is_scalar_def)

text \<open>
  Claim C10. If the target file does not exist and the content is the empty string,
  the snapshot writer reports no change and does not create the file; it has made the
  parent directory of the target (when no regular file is in the way), left every
  existing node as it was and touched nothing outside the path to that directory.
\<close>

theorem write_if_changed_empty_on_missing:
  assumes "node_at fs p = None"
    and "no_file_on_path fs (butlast p)"
  shows "\<exists>fs1. write_if_changed sha256 p [] fs = (Inr False, fs1)
           \<and> node_at fs1 p = None
           \<and> node_at fs1 (butlast p) = Some Dir
           \<and> (\<forall>r. node_at fs r \<noteq> None \<longrightarrow> node_at fs1 r = node_at fs r)
           \<and> (\<forall>r. \<not> prefix r (butlast p) \<longrightarrow> fs1 r = fs r)"
proof -
  have p: "p \<noteq> []" using assms(1) by (auto simp: node_at_def)
  from mkdir_parents_props [OF assms(2)] obtain fs1 where
    m: "mkdir_parents fs (butlast p) = Inr fs1"
    and par: "node_at fs1 (butlast p) = Some Dir"
    and same: "\<forall>r. \<not> prefix r (butlast p) \<longrightarrow> fs1 r = fs r"
    and keep: "\<forall>r. node_at fs r \<noteq> None \<longrightarrow> node_at fs1 r = node_at fs r"
    by blast
  have tgt: "node_at fs1 p = None"
    using same not_prefix_butlast [OF p] p assms(1) by (simp add: node_at_def)
  have nd: "node_at fs1 p \<noteq> Some Dir" using tgt by simp
  have ht: "holds_text fs1 p" using tgt by (simp add: holds_text_def)
  have enc: "encodable []" by (simp add: encodable_def)
  have "write_if_changed sha256 p [] fs = (Inr False, fs1)"
    using write_if_changed_after_mkdir [OF m nd par ht enc, of sha256] tgt
    by (simp add: old_text_def)
  with tgt par same keep show ?thesis by blast
qed

theorem write_if_changed_empty_on_missing_witness:
  "fst (write_if_changed plain_digest OUT_PATH [] Map.empty) = Inr False
   \<and> node_at (snd (write_if_changed plain_digest OUT_PATH [] Map.empty)) OUT_PATH = None
   \<and> node_at (snd (write_if_changed plain_digest OUT_PATH [] Map.empty)) [''docs''] = Some Dir"
proof -
  have n: "node_at Map.empty OUT_PATH = None" by (simp add: node_at_def OUT_PATH_def)
  from write_if_changed_empty_on_missing [OF n no_file_on_path_empty, of plain_digest]
  obtain fs1 where
    "write_if_changed plain_digest OUT_PATH [] Map.empty = (Inr False, fs1)"
    "node_at fs1 OUT_PATH = None" "node_at fs1 (butlast OUT_PATH) = Some Dir"
    by blast
  then show ?thesis by (simp add: OUT_PATH_def)
qed

section \<open>The catalog fallback\<close>
























section \<open>The date parser\<close>

subsection \<open>What is parsed spells a calendar date\<close>

lemma first_match_SomeD:
  "first_match alts = Some (d, b, y, l) \<Longrightarrow>
     \<exists>rest. (d, rest) \<in> set alts \<and> match_tail rest = Some (b, y, l)"
  by (induction alts) (auto split: option.splits)

lemma day_alternatives_mem:
  assumes "(d, rest) \<in> set (day_alternatives s)"
  shows "s = d @ rest \<and> day_text d"
proof (cases s)
  case Nil
  with assms show ?thesis by (simp add: day_alternatives_def)
next
  case (Cons a t)
  show ?thesis
  proof (cases t)
    case Nil
    with assms Cons show ?thesis
      by (auto simp: day_alternatives_def day_text_def split: if_splits)
  next
    case (Cons b r)
    with assms \<open>s = a # t\<close> show ?thesis
      by (auto simp: day_alternatives_def day_text_def split: if_splits)
  qed
qed

lemma skip_spaces_SomeD:
  assumes "skip_spaces s = Some s1"
  shows "\<exists>w. s = w @ s1 \<and> spaces w"
proof -
  from assms obtain c cs where s: "s = c # cs" "is_space c" "s1 = dropWhile is_space cs"
    by (auto simp: skip_spaces_def split: list.splits if_splits)
  have "s = (c # takeWhile is_space cs) @ s1" using s by simp
  moreover have "spaces (c # takeWhile is_space cs)"
    using s(2) by (auto simp: spaces_def list_all_iff dest: set_takeWhileD)
  ultimately show ?thesis by blast
qed

lemma match_month_SomeD:
  "match_month s = Some (b, r) \<Longrightarrow> s = b @ r \<and> length b = 3 \<and> py_lower b \<in> set month_abbrs"
  by (auto simp: match_month_def split: list.splits if_splits)

lemma match_year_SomeD:
  "match_year s = Some (y, r) \<Longrightarrow> s = y @ r \<and> year_text y"
  by (auto simp: match_year_def year_text_def split: list.splits if_splits)

lemma match_tail_SomeD:
  assumes "match_tail s = Some (b, y, l)"
  shows "\<exists>w1 w2. s = w1 @ b @ w2 @ y @ l \<and> spaces w1 \<and> spaces w2
           \<and> length b = 3 \<and> py_lower b \<in> set month_abbrs \<and> year_text y"
proof -
  from assms obtain s1 s2 s3 where
    a: "skip_spaces s = Some s1" and b: "match_month s1 = Some (b, s2)"
    and c: "skip_spaces s2 = Some s3" and d: "match_year s3 = Some (y, l)"
    by (auto simp: match_tail_def split: option.splits)
  from skip_spaces_SomeD [OF a] obtain w1 where w1: "s = w1 @ s1" "spaces w1" by blast
  from skip_spaces_SomeD [OF c] obtain w2 where w2: "s2 = w2 @ s3" "spaces w2" by blast
  from match_month_SomeD [OF b] match_year_SomeD [OF d] w1 w2 show ?thesis by auto
qed

lemma index_of_SomeD: "index_of x xs = Some i \<Longrightarrow> i < length xs \<and> xs ! i = x"
  by (induction xs arbitrary: i) (auto split: if_splits)

lemma parse_date_SomeD:
  assumes "parse_date v = Some dt"
  shows "\<exists>s. v = PStr s \<and> spells s dt \<and> valid_date dt"
proof -
  from assms obtain s where v: "v = PStr s" and st: "strptime (PStr s) = Inr dt"
    by (cases v) (auto simp: parse_date_def strptime_def split: sum.splits)
  from st obtain d b y i where
    m: "regex_match s = Some (d, b, y, [])"
    and ix: "index_of (py_lower b) month_abbrs = Some i"
    and mk: "make_date (digits_value y) (Suc i) (int_of_text d) = Inr dt"
    by (auto simp: strptime_def split: option.splits if_splits)
  from mk have dt: "dt = (digits_value y, Suc i, int_of_text d)" and vd: "valid_date dt"
    by (auto simp: make_date_def split: if_splits)
  from m first_match_SomeD obtain rest where
    r: "(d, rest) \<in> set (day_alternatives s)" "match_tail rest = Some (b, y, [])"
    unfolding regex_match_def by blast
  from day_alternatives_mem [OF r(1)] have s: "s = d @ rest" and dd: "day_text d" by auto
  from match_tail_SomeD [OF r(2)] obtain w1 w2 where
    t: "rest = w1 @ b @ w2 @ y" "spaces w1" "spaces w2" "length b = 3" "year_text y"
    by auto
  from index_of_SomeD [OF ix] have "i < length month_abbrs" "month_abbrs ! i = py_lower b"
    by auto
  then have mt: "month_text b (Suc i)"
    using t(4) by (simp add: month_text_def month_abbrs_def)
  have "spells s dt"
    unfolding spells_def dt prod.case using s t dd mt
    by (intro exI [of _ d] exI [of _ w1] exI [of _ b] exI [of _ w2] exI [of _ y]) simp
  with v vd show ?thesis by blast
qed

subsection \<open>What spells a calendar date is parsed\<close>

lemma digit_not_space: "is_digit c \<Longrightarrow> \<not> is_space c"
  by (auto simp: is_digit_def is_space_def Let_def)

lemma space_lower: "is_space c \<Longrightarrow> py_lower_char c = c"
  by (auto simp: is_space_def py_lower_char_def Let_def)

lemma month_letter_not_space:
  assumes "py_lower (a # t) \<in> set month_abbrs"
  shows "\<not> is_space a"
proof
  assume sp: "is_space a"
  from assms have "py_lower_char a \<in> set (map hd month_abbrs)"
    by (auto simp: py_lower_def month_abbrs_def)
  with space_lower [OF sp] have "a \<in> set (map hd month_abbrs)" by simp
  with sp show False by (auto simp: month_abbrs_def is_space_def)
qed

lemma skip_spaces_append:
  assumes "spaces w" and "\<not> is_space c"
  shows "skip_spaces (w @ c # r) = Some (c # r)"
proof -
  from assms(1) obtain x w' where w: "w = x # w'" "is_space x" "\<forall>y\<in>set w'. is_space y"
    by (cases w) (auto simp: spaces_def list_all_iff)
  have "dropWhile is_space (w' @ c # r) = c # r"
    using w(3) assms(2) by (simp add: dropWhile_append)
  with w show ?thesis by (simp add: skip_spaces_def)
qed

lemma month_text_in_set:
  assumes "month_text t m"
  shows "py_lower t \<in> set month_abbrs"
proof -
  have "length month_abbrs = 12" by (simp add: month_abbrs_def)
  with assms have "m - 1 < length month_abbrs" by (auto simp: month_text_def)
  then have "month_abbrs ! (m - 1) \<in> set month_abbrs" by (rule nth_mem)
  with assms show ?thesis by (simp add: month_text_def)
qed

lemma match_month_append:
  assumes "month_text t m"
  shows "match_month (t @ r) = Some (t, r)"
proof -
  from assms have "length t = Suc (Suc (Suc 0))" by (simp add: month_text_def)
  then obtain a b c where t: "t = [a, b, c]" by (auto simp: length_Suc_conv)
  from month_text_in_set [OF assms] t show ?thesis by (simp add: match_month_def)
qed

lemma match_year_append:
  assumes "year_text t"
  shows "match_year (t @ r) = Some (t, r)"
proof -
  from assms have "length t = Suc (Suc (Suc (Suc 0)))" by (simp add: year_text_def)
  then obtain a b c d where t: "t = [a, b, c, d]" by (auto simp: length_Suc_conv)
  with assms show ?thesis by (simp add: match_year_def year_text_def)
qed

lemma index_of_nth: "distinct xs \<Longrightarrow> i < length xs \<Longrightarrow> index_of (xs ! i) xs = Some i"
proof (induction xs arbitrary: i)
  case Nil
  then show ?case by simp
next
  case (Cons x xs)
  then show ?case by (cases i) (auto simp: nth_Cons')
qed

lemma match_tail_append:
  assumes "spaces w1" "month_text mt m" "spaces w2" "year_text yt"
  shows "match_tail (w1 @ mt @ w2 @ yt) = Some (mt, yt, [])"
proof -
  from assms(2) obtain a t where mt: "mt = a # t" by (cases mt) (auto simp: month_text_def)
  from month_text_in_set [OF assms(2)] mt have na: "\<not> is_space a" using month_letter_not_space by simp
  from assms(4) obtain e u where yt: "yt = e # u" "is_digit e"
    by (cases yt) (auto simp: year_text_def)
  have 1: "skip_spaces (w1 @ mt @ w2 @ yt) = Some (mt @ w2 @ yt)"
    using skip_spaces_append [OF assms(1) na] mt by simp
  have 2: "match_month (mt @ w2 @ yt) = Some (mt, w2 @ yt)"
    by (rule match_month_append [OF assms(2)])
  have 3: "skip_spaces (w2 @ yt) = Some yt"
    using skip_spaces_append [OF assms(3) digit_not_space [OF yt(2)]] yt by simp
  have 4: "match_year yt = Some (yt, [])"
    using match_year_append [OF assms(4), of "[]"] by simp
  from 1 2 3 4 show ?thesis by (simp add: match_tail_def)
qed

lemma day_alternatives_first:
  assumes "day_text d" and "is_space c"
  shows "\<exists>alts. day_alternatives (d @ c # r) = (d, c # r) # alts"
proof -
  have c0: "c \<noteq> CHR ''0''" "c \<noteq> CHR ''1''" "\<not> is_digit c"
    using assms(2) by (auto simp: is_space_def is_digit_def Let_def)
  from assms(1) consider a where "d = [a]" "is_digit19 a"
    | a b where "d = [a, b]"
        "(a = CHR ''3'' \<and> (b = CHR ''0'' \<or> b = CHR ''1''))
         \<or> ((a = CHR ''1'' \<or> a = CHR ''2'') \<and> is_digit b)
         \<or> ((a = CHR ''0'' \<or> a = CHR '' '') \<and> is_digit19 b)"
    by (auto simp: day_text_def split: list.splits)
  then show ?thesis
  proof cases
    case 1
    then show ?thesis using c0
      by (auto simp: day_alternatives_def is_digit19_def)
  next
    case 2
    then show ?thesis
      by (auto simp: day_alternatives_def is_digit19_def)
  qed
qed

lemma spells_parse_date:
  assumes "spells s dt" and "valid_date dt"
  shows "parse_date (PStr s) = Some dt"
proof -
  obtain y m d where dt: "dt = (y, m, d)" by (cases dt) auto
  with assms(1) obtain dtx w1 mtx w2 ytx where
    s: "s = dtx @ w1 @ mtx @ w2 @ ytx"
    and p: "day_text dtx" "spaces w1" "month_text mtx m" "spaces w2" "year_text ytx"
    and v: "d = int_of_text dtx" "y = digits_value ytx"
    by (auto simp: spells_def)
  from p(2) obtain c w where w1: "w1 = c # w" "is_space c"
    by (cases w1) (auto simp: spaces_def)
  from day_alternatives_first [OF p(1) w1(2), of "w @ mtx @ w2 @ ytx"] s w1 obtain alts where
    "day_alternatives s = (dtx, w1 @ mtx @ w2 @ ytx) # alts" by auto
  with match_tail_append [OF p(2,3,4,5)] have
    m: "regex_match s = Some (dtx, mtx, ytx, [])"
    by (simp add: regex_match_def)
  have "distinct month_abbrs" "m - 1 < length month_abbrs"
    using p(3) by (auto simp: month_abbrs_def month_text_def)
  from index_of_nth [OF this] p(3) have
    ix: "index_of (py_lower mtx) month_abbrs = Some (m - 1)"
    by (simp add: month_text_def)
  have "Suc (m - 1) = m" using p(3) by (simp add: month_text_def)
  with m ix v dt assms(2) show ?thesis
    by (simp add: parse_date_def strptime_def make_date_def)
qed

lemma parse_date_Some_iff:
  "parse_date v = Some dt \<longleftrightarrow> (\<exists>s. v = PStr s \<and> spells s dt \<and> valid_date dt)"
  using parse_date_SomeD spells_parse_date by blast

subsection \<open>The canonical text of a date\<close>

lemma of_char_digit_char: "(of_char (digit_char n) :: nat) = 48 + n mod 10"
proof -
  have "48 + n mod 10 < 256" by (simp add: less_le_trans [OF mod_less_divisor])
  then show ?thesis by (simp add: digit_char_def)
qed

lemma is_digit_digit_char: "is_digit (digit_char n)"
  by (simp add: is_digit_def of_char_digit_char)

lemma digit_val_digit_char: "digit_val (digit_char n) = n mod 10"
  by (simp add: digit_val_def of_char_digit_char)

lemma digit_char_eq_iff: "digit_char n = c \<longleftrightarrow> 48 + n mod 10 = (of_char c :: nat)"
  using of_char_digit_char [of n] of_char_eq_iff [of "digit_char n" c, where ?'a = nat]
  by metis

lemma is_digit19_digit_char: "is_digit19 (digit_char n) \<longleftrightarrow> n mod 10 \<noteq> 0"
  by (auto simp: is_digit19_def of_char_digit_char)

lemma day_text_pad2:
  assumes "1 \<le> d" and "d \<le> 31"
  shows "day_text (pad2 d)"
proof -
  have q: "d div 10 \<le> 3" using assms(2) by simp
  have r3: "d div 10 = 3 \<Longrightarrow> d mod 10 \<le> 1" using assms(2) by arith
  have r0: "d div 10 = 0 \<Longrightarrow> d mod 10 \<noteq> 0" using assms(1) by arith
  from q have "d div 10 = 0 \<or> d div 10 = 1 \<or> d div 10 = 2 \<or> d div 10 = 3" by arith
  then show ?thesis
  proof (elim disjE)
    assume "d div 10 = 0"
    with r0 show ?thesis
      by (simp add: day_text_def pad2_def digit_char_eq_iff is_digit19_digit_char)
  next
    assume "d div 10 = 1"
    then show ?thesis
      by (simp add: day_text_def pad2_def digit_char_eq_iff is_digit_digit_char)
  next
    assume "d div 10 = 2"
    then show ?thesis
      by (simp add: day_text_def pad2_def digit_char_eq_iff is_digit_digit_char)
  next
    assume 3: "d div 10 = 3"
    with r3 have "d mod 10 = 0 \<or> d mod 10 = 1" by arith
    with 3 show ?thesis
      by (auto simp: day_text_def pad2_def digit_char_eq_iff)
  qed
qed

lemma int_of_text_pad2: 
  assumes d: "d < 100"
  shows "int_of_text (pad2 d) = d"
proof -
  have m: "d div 10 mod 10 = d div 10" using d by simp
  have ns: "\<not> is_space (digit_char (d div 10))"
    by (rule digit_not_space [OF is_digit_digit_char])
  have "int_of_text (pad2 d) = 10 * (d div 10 mod 10) + d mod 10"
    using ns by (simp add: int_of_text_def pad2_def digits_value_def digit_val_digit_char)
  with m show ?thesis by simp
qed

lemma year_text_pad4: "year_text (pad4 y)"
  by (simp add: year_text_def pad4_def is_digit_digit_char)

lemma four_digits:
  assumes "y < 10000"
  shows "10 * (10 * (10 * (y div 1000 mod 10) + y div 100 mod 10) + y div 10 mod 10) + y mod 10 = (y::nat)"
proof -
  define a where "a = y div 10"
  define b where "b = a div 10"
  define c where "c = b div 10"
  have b100: "y div 100 = b" using div_mult2_eq [of y 10 10] by (simp add: a_def b_def)
  have c1000: "y div 1000 = c" using div_mult2_eq [of y 100 10] b100 by (simp add: c_def)
  have c10: "c < 10" using assms c1000 by (simp add: less_mult_imp_div_less)
  have 1: "y = 10 * a + y mod 10" by (simp add: a_def)
  have 2: "a = 10 * b + a mod 10" by (simp add: b_def)
  have 3: "b = 10 * c + b mod 10" by (simp add: c_def)
  have "10 * (10 * (10 * (c mod 10) + b mod 10) + a mod 10) + y mod 10 = y"
    using 1 2 3 c10 by simp
  then show ?thesis by (simp add: b100 c1000 a_def)
qed

lemma digits_value_pad4: "y < 10000 \<Longrightarrow> digits_value (pad4 y) = y"
  using four_digits [of y]
  by (simp add: pad4_def digits_value_def digit_val_digit_char)

lemma month_text_month_names:
  assumes "1 \<le> m" and "m \<le> 12"
  shows "month_text (month_names ! (m - 1)) m"
proof -
  from assms have "m = 1 \<or> m = 2 \<or> m = 3 \<or> m = 4 \<or> m = 5 \<or> m = 6 \<or> m = 7
      \<or> m = 8 \<or> m = 9 \<or> m = 10 \<or> m = 11 \<or> m = 12" by arith
  then show ?thesis
    by (elim disjE)
       (simp_all add: month_text_def month_names_def month_abbrs_def py_lower_def py_lower_char_def)
qed

lemma spells_dd_mon_yyyy:
  assumes "valid_date dt"
  shows "spells (dd_mon_yyyy dt) dt"
proof -
  obtain y m d where dt: "dt = (y, m, d)" by (cases dt) auto
  with assms have r: "1 \<le> y" "y \<le> 9999" "1 \<le> m" "m \<le> 12" "1 \<le> d" "d \<le> days_in_month y m"
    by (auto simp: valid_date_def)
  have d31: "d \<le> 31" using r(6) by (auto simp: days_in_month_def split: if_splits)
  have sp: "spaces '' ''" by (simp add: spaces_def is_space_def)
  have "int_of_text (pad2 d) = d" using d31 by (simp add: int_of_text_pad2)
  moreover have "digits_value (pad4 y) = y" using r(2) by (simp add: digits_value_pad4)
  ultimately show ?thesis
    unfolding spells_def dt dd_mon_yyyy_def prod.case
    using day_text_pad2 [OF r(5) d31] month_text_month_names [OF r(3,4)] year_text_pad4 [of y] sp
    by (intro exI [of _ "pad2 d"] exI [of _ "'' ''"] exI [of _ "month_names ! (m - 1)"]
          exI [of _ "pad4 y"]) simp
qed

text \<open>
  Claim C3, as amended. For every calendar date, the date parser maps its text in the
  form "DD Mon YYYY" to that date. It is a total function: the \<open>except\<close> clause turns
  every exception into \<open>None\<close>, and it returns \<open>None\<close> for every input that is no str.
  For a str (of code points below 256, which is what a str of this model holds) it
  returns a date exactly when the str spells a calendar date in the wider format that
  \<open>%d %b %Y\<close> denotes (the day may lack its leading zero or have a space in its place,
  the month abbreviation may be in any letter case, the separators are runs of white
  space), and that date is the one spelled; for every other such str it returns
  \<open>None\<close>.
\<close>

theorem parse_date_spec:
  "(valid_date dt \<longrightarrow> parse_date (PStr (dd_mon_yyyy dt)) = Some dt)
   \<and> (parse_date v = Some dt' \<longleftrightarrow> (\<exists>s. v = PStr s \<and> spells s dt' \<and> valid_date dt'))
   \<and> ((\<forall>s dt''. v = PStr s \<longrightarrow> \<not> (spells s dt'' \<and> valid_date dt'')) \<longrightarrow> parse_date v = None)"
proof -
  have a: "valid_date dt \<longrightarrow> parse_date (PStr (dd_mon_yyyy dt)) = Some dt"
    using spells_dd_mon_yyyy spells_parse_date by blast
  have b: "parse_date v = Some dt' \<longleftrightarrow> (\<exists>s. v = PStr s \<and> spells s dt' \<and> valid_date dt')"
    by (rule parse_date_Some_iff)
  have c: "(\<forall>s dt''. v = PStr s \<longrightarrow> \<not> (spells s dt'' \<and> valid_date dt'')) \<longrightarrow> parse_date v = None"
    using parse_date_SomeD [of v] by (cases "parse_date v") auto
  from a b c show ?thesis by blast
qed

theorem parse_date_spec_witness:
  "valid_date (2023, 3, 15)
   \<and> dd_mon_yyyy (2023, 3, 15) = ''15 Mar 2023''
   \<and> parse_date (PStr ''15 Mar 2023'') = Some (2023, 3, 15)
   \<and> parse_date PNone = None
   \<and> parse_date (PInt 20230315) = None
   \<and> parse_date (PStr ''31 Feb 2023'') = None
   \<and> parse_date (PStr ''2023-03-15'') = None
   \<and> parse_date (PStr ''15 Mar 2023 '') = None
   \<and> parse_date (PStr ''15 March 2023'') = None"
proof -
  have v: "valid_date (2023, 3, 15)"
    by (simp add: valid_date_def days_in_month_def)
  have r: "dd_mon_yyyy (2023, 3, 15) = ''15 Mar 2023''"
    by code_simp
  from parse_date_spec [of "(2023, 3, 15)" PNone "(1, 1, 1)"] v r
  have p: "parse_date (PStr ''15 Mar 2023'') = Some (2023, 3, 15)" by simp
  from parse_date_spec [of "(2023, 3, 15)" PNone "(1, 1, 1)"]
  have n: "parse_date PNone = None" by simp
  from parse_date_spec [of "(2023, 3, 15)" "PInt 20230315" "(1, 1, 1)"]
  have i: "parse_date (PInt 20230315) = None" by simp
  have o: "parse_date (PStr ''31 Feb 2023'') = None" "parse_date (PStr ''2023-03-15'') = None"
    "parse_date (PStr ''15 Mar 2023 '') = None" "parse_date (PStr ''15 March 2023'') = None"
    by code_simp+
  from v r p n i o show ?thesis by simp
qed

text \<open>
  The claim as stated fails on a str that is not in the form "DD Mon YYYY" and is
  parsed all the same: a day of one digit, a month in lower case and two spaces, and a
  tab and a line feed as separators. The canonical text of the first date is another
  one.
\<close>

theorem parse_date_accepts_other_text:
  "parse_date (PStr ''5 mar  2023'') = Some (2023, 3, 5)
   \<and> dd_mon_yyyy (2023, 3, 5) = ''05 Mar 2023''
   \<and> parse_date (PStr (''15'' @ [CHR 0x09] @ ''MAR'' @ [CHR 0x0A] @ ''2023'')) = Some (2023, 3, 15)
   \<and> parse_date (PStr '' 5 Mar 2023'') = Some (2023, 3, 5)"
  by code_simp

section \<open>Where exceptions can come from\<close>

text \<open>
  When every wait is a length \<open>sleep\<close> accepts, the API client never raises: the
  selector, which calls it with the default retry count and backoff, raises only where
  a response cannot be normalized or filtered.
\<close>

lemma attempt_once_no_raise:
  assumes "\<forall>w. sleep_for backoff attempt w = Inr (emit (Sleep r) w)"
  shows "fst (attempt_once net productcode oscode country backoff attempt last_exc w) \<noteq> Raise e"
  using assms
  by (auto simp: attempt_once_def on_exception_def sleep_in_try_def Let_def
      split: http_outcome.splits sum.splits)

lemma retry_loop_no_raise:
  assumes "\<forall>a\<in>set attempts. \<exists>r. \<forall>w. sleep_for backoff a w = Inr (emit (Sleep r) w)"
  shows "fst (retry_loop net productcode oscode country backoff attempts last_exc w) \<noteq> Inl e"
  using assms
proof (induction attempts arbitrary: last_exc w)
  case Nil
  then show ?case by simp
next
  case (Cons attempt rest)
  then obtain r where a: "\<forall>w. sleep_for backoff attempt w = Inr (emit (Sleep r) w)" by auto
  from Cons.prems have
    r: "\<forall>a\<in>set rest. \<exists>r. \<forall>w. sleep_for backoff a w = Inr (emit (Sleep r) w)" by simp
  obtain res w1 where s: "attempt_once net productcode oscode country backoff attempt last_exc w = (res, w1)"
    by (cases "attempt_once net productcode oscode country backoff attempt last_exc w") auto
  from attempt_once_no_raise [OF a, of net productcode oscode country last_exc w] s
  have nr: "\<And>e. res \<noteq> Raise e" by auto
  show ?case
  proof (cases res)
    case (Return j)
    with s show ?thesis by simp
  next
    case (Continue l)
    with s Cons.IH [OF r] show ?thesis by simp
  next
    case (Raise x)
    with nr [of x] show ?thesis by simp
  qed
qed

lemma call_dell_api_returns:
  assumes "sleeps_fit backoff retries"
  shows "\<exists>v w1. call_dell_api net productcode oscode country retries backoff w = (Inr v, w1)"
proof -
  have pos: "\<forall>a\<in>set [1..retries]. \<exists>r. \<forall>w. sleep_for backoff a w = Inr (emit (Sleep r) w)"
    using sleep_for_fits [OF assms] by simp
  obtain res w1 where
    l: "retry_loop net productcode oscode country backoff [1..retries] None w = (res, w1)"
    by (cases "retry_loop net productcode oscode country backoff [1..retries] None w") auto
  from retry_loop_no_raise [OF pos, of net productcode oscode country None w] l
  obtain j last1 where "res = Inr (j, last1)" by (cases res) auto
  with l show ?thesis
    by (cases j; cases last1) (simp_all add: call_dell_api_def)
qed

text \<open>The calls of the selector are such calls: every response it is handed is a
  value, never an exception.\<close>

lemma fetched_returns:
  "list_all (\<lambda>res. \<exists>data. res = Inr data) (fetched net productcode country oscodes w)"
proof (induction oscodes arbitrary: w)
  case Nil
  then show ?case by simp
next
  case (Cons oscode rest)
  have "sleeps_fit (Finite 2) 3" by (simp add: sleeps_fit_def)
  from call_dell_api_returns [OF this, of net productcode oscode country w]
  obtain v w1 where "call_dell_api net productcode oscode country 3 (Finite 2) w = (Inr v, w1)"
    by blast
  with Cons.IH [of w1] show ?case by simp
qed

end
